theory Spec2Isabelle
  imports Main "HOL-Library.Sublist" "HOL-Library.While_Combinator"
begin

section \<open>Text primitives of the source language\<close>

text \<open>
  A Python \<open>str\<close> is modelled as a list of characters, a character being a code point
  below 256. The two character classes the program relies on are those of CPython for
  these code points: \<open>str.isspace\<close> (used by \<open>str.strip()\<close>) and the class \<open>\w\<close> of the
  \<open>re\<close> module on \<open>str\<close> patterns (alphanumeric characters and the underscore).
\<close>

definition isspace :: "char \<Rightarrow> bool" where
  "isspace c =
     (let n = (of_char c :: nat)
      in (9 \<le> n \<and> n \<le> 13) \<or> (28 \<le> n \<and> n \<le> 32) \<or> n = 133 \<or> n = 160)"

definition word_char :: "char \<Rightarrow> bool" where
  "word_char c =
     (let n = (of_char c :: nat)
      in (48 \<le> n \<and> n \<le> 57) \<or> (65 \<le> n \<and> n \<le> 90) \<or> n = 95 \<or> (97 \<le> n \<and> n \<le> 122)
         \<or> n = 170 \<or> n = 178 \<or> n = 179 \<or> n = 181 \<or> n = 185 \<or> n = 186
         \<or> (188 \<le> n \<and> n \<le> 190) \<or> (192 \<le> n \<and> n \<le> 214)
         \<or> (216 \<le> n \<and> n \<le> 246) \<or> (248 \<le> n \<and> n \<le> 255))"

text \<open>\<open>s.strip(chars)\<close> removes the characters of a class from both ends of \<open>s\<close>.\<close>

definition strip_with :: "(char \<Rightarrow> bool) \<Rightarrow> string \<Rightarrow> string" where
  "strip_with P s = rev (dropWhile P (rev (dropWhile P s)))"

definition strip :: "string \<Rightarrow> string" where
  "strip s = strip_with isspace s"

definition startswith :: "string \<Rightarrow> string \<Rightarrow> bool" where
  "startswith s p = (take (length p) s = p)"

text \<open>\<open>content.split('\n')\<close>: the pieces between newlines; never the empty list.\<close>

fun split_nl :: "string \<Rightarrow> string list" where
  "split_nl [] = [[]]"
| "split_nl (c # cs) =
     (if c = CHR 0x0A then [] # split_nl cs
      else (case split_nl cs of [] \<Rightarrow> [[c]] | l # ls \<Rightarrow> (c # l) # ls))"

text \<open>\<open>'\n'.join(xs)\<close>.\<close>

fun join_nl :: "string list \<Rightarrow> string" where
  "join_nl [] = []"
| "join_nl [l] = l"
| "join_nl (l # ls) = l @ CHR 0x0A # join_nl ls"

section \<open>The regular expressions of \<open>file_patterns\<close>\<close>

text \<open>
  The fragment of the \<open>re\<close> syntax that the two patterns use: literal text, alternation,
  sequence, and a greedy one-or-more repetition of a character class. Matching is
  backtracking: \<open>rx_match r s\<close> lists, in the order in which the matcher tries them, what is
  left of \<open>s\<close> after each way of matching \<open>r\<close> at its start.
\<close>

datatype regex =
    Lit string
  | Alt regex regex
  | Seq regex regex
  | ClassPlus "char \<Rightarrow> bool"

fun plus_rests :: "(char \<Rightarrow> bool) \<Rightarrow> string \<Rightarrow> string list" where
  "plus_rests P [] = []"
| "plus_rests P (c # cs) = (if P c then plus_rests P cs @ [cs] else [])"

fun rx_match :: "regex \<Rightarrow> string \<Rightarrow> string list" where
  "rx_match (Lit l) s = (if take (length l) s = l then [drop (length l) s] else [])"
| "rx_match (Alt a b) s = rx_match a s @ rx_match b s"
| "rx_match (Seq a b) s = concat (map (rx_match b) (rx_match a s))"
| "rx_match (ClassPlus P) s = plus_rests P s"

text \<open>
  A pattern is what precedes its capture group and the group itself, which ends both
  patterns. \<open>re.match(pattern, s)\<close> takes the first way to match at the start of \<open>s\<close>, and
  \<open>match.group(1)\<close> is the text the group consumed.
\<close>

type_synonym pattern = "regex \<times> regex"

definition re_match_group1 :: "pattern \<Rightarrow> string \<Rightarrow> string option" where
  "re_match_group1 pat s =
     (case concat (map (\<lambda>r. map (\<lambda>r'. take (length r - length r') r) (rx_match (snd pat) r))
                       (rx_match (fst pat) s)) of
        [] \<Rightarrow> None
      | g # _ \<Rightarrow> Some g)"

text \<open>The class \<open>[\w\/-]\<close>.\<close>

definition path_char :: "char \<Rightarrow> bool" where
  "path_char c = (word_char c \<or> c = CHR ''/'' \<or> c = CHR ''-'')"

text \<open>\<open>(?:apps|packages)\/[\w\/-]+\.\w+\<close>, the content of the group of both patterns.\<close>

definition path_rx :: regex where
  "path_rx =
     Seq (Alt (Lit ''apps'') (Lit ''packages''))
       (Seq (Lit ''/'') (Seq (ClassPlus path_char) (Seq (Lit ''.'') (ClassPlus word_char))))"

definition file_patterns :: "pattern list" where
  "file_patterns =
     [(Seq (Alt (Lit ''//'') (Lit ''#'')) (Lit '' ''), path_rx),
      (Lit [], path_rx)]"

section \<open>\<open>extract_file_info\<close>\<close>

text \<open>
  The \<open>for pattern in file_patterns\<close> loop: the group of the first pattern that matches the
  stripped line, \<open>None\<close> when none does.
\<close>

fun first_match :: "pattern list \<Rightarrow> string \<Rightarrow> string option" where
  "first_match [] s = None"
| "first_match (p # ps) s =
     (case re_match_group1 p s of Some g \<Rightarrow> Some g | None \<Rightarrow> first_match ps s)"

definition find_file_path :: "string \<Rightarrow> string option" where
  "find_file_path line = first_match file_patterns (strip line)"

text \<open>Python's truth value of an optional string: \<open>None\<close> and \<open>''\<close> are false.\<close>

fun truthy :: "string option \<Rightarrow> bool" where
  "truthy None = False"
| "truthy (Some s) = (s \<noteq> [])"

text \<open>
  The condition of the inner loop on a line: it is blank, or starts, once stripped, with
  \<open>//\<close> or \<open>#\<close>.
\<close>

definition skippable :: "string \<Rightarrow> bool" where
  "skippable l = (strip l = [] \<or> startswith (strip l) ''//'' \<or> startswith (strip l) ''#'')"

function skip_loop :: "string list \<Rightarrow> nat \<Rightarrow> nat" where
  "skip_loop lines i =
     (if i < length lines \<and> skippable (lines ! i) then skip_loop lines (i + 1) else i)"
  by pat_completeness auto
termination
  by (relation "measure (\<lambda>(lines, i). length lines - i)") auto

declare skip_loop.simps [simp del]

record scan_state =
  idx :: nat
  current_file :: "string option"
  current_content :: "string list"
  files_data :: "(string \<times> string) list"

text \<open>The value appended to \<open>files_data\<close> when a file is saved.\<close>

definition saved :: "string \<Rightarrow> string list \<Rightarrow> string \<times> string" where
  "saved f content = (f, strip (join_nl content))"

text \<open>One iteration of the \<open>while i < len(lines)\<close> loop, entered with \<open>idx st < length lines\<close>.\<close>

definition loop_step :: "string list \<Rightarrow> scan_state \<Rightarrow> scan_state" where
  "loop_step lines st =
     (let line = lines ! idx st;
          file_path = find_file_path line
      in if truthy file_path then
           \<lparr> idx = skip_loop lines (idx st + 1),
             current_file = file_path,
             current_content = [],
             files_data =
               (case current_file st of
                  None \<Rightarrow> files_data st
                | Some f \<Rightarrow>
                    if f \<noteq> [] then files_data st @ [saved f (current_content st)]
                    else files_data st) \<rparr>
         else
           \<lparr> idx = idx st + 1,
             current_file = current_file st,
             current_content =
               (if truthy (current_file st) then current_content st @ [line]
                else current_content st),
             files_data = files_data st \<rparr>)"

function main_loop :: "string list \<Rightarrow> scan_state \<Rightarrow> scan_state" where
  "main_loop lines st =
     (if idx st < length lines then main_loop lines (loop_step lines st) else st)"
  by pat_completeness auto
termination
proof (relation "measure (\<lambda>(lines, st). length lines - idx st)")
  show "wf (measure (\<lambda>(lines, st). length lines - idx st))" by simp
next
  fix lines :: "string list" and st :: scan_state
  assume less: "idx st < length lines"
  have ge: "i \<le> skip_loop ls i" for ls i
  proof (induction ls i rule: skip_loop.induct)
    case (1 ls i)
    show ?case
    proof (cases "i < length ls \<and> skippable (ls ! i)")
      case True
      with "1" have "i + 1 \<le> skip_loop ls (i + 1)" by blast
      moreover from True have "skip_loop ls i = skip_loop ls (i + 1)"
        by (subst skip_loop.simps) simp
      ultimately show ?thesis by simp
    next
      case False
      then have "skip_loop ls i = i"
        by (subst skip_loop.simps) auto
      then show ?thesis by simp
    qed
  qed
  have "idx st + 1 \<le> skip_loop lines (idx st + 1)" by (rule ge)
  then have "idx st < idx (loop_step lines st)"
    by (simp add: loop_step_def Let_def)
  with less show "((lines, loop_step lines st), (lines, st))
      \<in> measure (\<lambda>(lines, st). length lines - idx st)"
    by simp
qed

declare main_loop.simps [simp del]

definition init_state :: scan_state where
  "init_state = \<lparr> idx = 0, current_file = None, current_content = [], files_data = [] \<rparr>"

text \<open>The code after the loop: the last file is added if it has a path and content.\<close>

definition finish :: "scan_state \<Rightarrow> (string \<times> string) list" where
  "finish st =
     (case current_file st of
        None \<Rightarrow> files_data st
      | Some f \<Rightarrow>
          if f \<noteq> [] \<and> current_content st \<noteq> []
          then files_data st @ [saved f (current_content st)]
          else files_data st)"

definition extract_file_info :: "string \<Rightarrow> (string \<times> string) list" where
  "extract_file_info content = finish (main_loop (split_nl content) init_state)"


section \<open>Writing the extracted files\<close>

text \<open>
  \<open>os.path.join\<close> for two arguments and \<open>os.path.dirname\<close>, as \<open>posixpath\<close> defines
  them.
\<close>

definition path_join :: "string \<Rightarrow> string \<Rightarrow> string" where
  "path_join a b =
     (if startswith b ''/'' then b
      else if a = [] \<or> last a = CHR ''/'' then a @ b
      else a @ ''/'' @ b)"

definition dirname :: "string \<Rightarrow> string" where
  "dirname p =
     (let head = rev (dropWhile (\<lambda>c. c \<noteq> CHR ''/'') (rev p))
      in if head \<noteq> [] \<and> \<not> list_all (\<lambda>c. c = CHR ''/'') head
         then rev (dropWhile (\<lambda>c. c = CHR ''/'') (rev head))
         else head)"

text \<open>\<open>file_path.strip('\'"').strip()\<close>: the quote characters are 0x27 and 0x22.\<close>

definition normalize_path :: "string \<Rightarrow> string" where
  "normalize_path file_path =
     strip (strip_with (\<lambda>c. c = CHR 0x27 \<or> c = CHR 0x22) file_path)"

text \<open>
  The operating system is a parameter of the model. An exception of class \<open>Exception\<close> is
  represented by its message, the text that \<open>str(e)\<close> gives. An operation that changes the
  file system returns the exception it raises, if any, and the file system it leaves;
  \<open>read_text\<close> is \<open>open(file_path, 'r', encoding='utf-8')\<close> followed by \<open>f.read()\<close>,
  \<open>write_text\<close> is \<open>open(full_path, 'w', encoding='utf-8')\<close> followed by
  \<open>f.write(file_content)\<close>, and \<open>os_makedirs\<close> is \<open>os.makedirs\<close> with
  \<open>exist_ok=True\<close>.
\<close>

type_synonym exc = string

record 'w os_ops =
  os_makedirs :: "string \<Rightarrow> 'w \<Rightarrow> exc option \<times> 'w"
  read_text :: "string \<Rightarrow> 'w \<Rightarrow> exc + string"
  write_text :: "string \<Rightarrow> string \<Rightarrow> 'w \<Rightarrow> exc option \<times> 'w"

text \<open>The state of a run: the file system and the lines printed so far.\<close>

record 'w run_state =
  world :: 'w
  stdout :: "string list"

definition print :: "string \<Rightarrow> 'w run_state \<Rightarrow> 'w run_state" where
  "print s st = st\<lparr>stdout := stdout st @ [s]\<rparr>"

text \<open>The \<open>for file_path, file_content in files_data\<close> loop of \<open>process_file\<close>.\<close>

fun write_files ::
  "'w os_ops \<Rightarrow> string \<Rightarrow> (string \<times> string) list \<Rightarrow> 'w run_state \<Rightarrow> exc option \<times> 'w run_state" where
  "write_files os dest_dir [] st = (None, st)"
| "write_files os dest_dir ((file_path, file_content) # rest) st =
     (let file_path = normalize_path file_path;
          full_path = path_join dest_dir file_path
      in case os_makedirs os (dirname full_path) (world st) of
           (Some e, w) \<Rightarrow> (Some e, st\<lparr>world := w\<rparr>)
         | (None, w) \<Rightarrow>
             (case write_text os full_path file_content w of
                (Some e, w') \<Rightarrow> (Some e, st\<lparr>world := w'\<rparr>)
              | (None, w') \<Rightarrow>
                  write_files os dest_dir rest
                    (print (''Created file: '' @ full_path) (st\<lparr>world := w'\<rparr>))))"

definition process_file ::
  "'w os_ops \<Rightarrow> string \<Rightarrow> string \<Rightarrow> 'w run_state \<Rightarrow> exc option \<times> 'w run_state" where
  "process_file os file_path dest_dir st =
     (case read_text os file_path (world st) of
        Inl e \<Rightarrow> (Some e, st)
      | Inr content \<Rightarrow> write_files os dest_dir (extract_file_info content) st)"

text \<open>The \<open>try\<close> statement of \<open>main\<close>, for one document.\<close>

definition try_process :: "'w os_ops \<Rightarrow> string \<Rightarrow> string \<Rightarrow> 'w run_state \<Rightarrow> 'w run_state" where
  "try_process os dest_dir file_path st =
     (case process_file os file_path dest_dir st of
        (Some e, st') \<Rightarrow> print (''Error processing '' @ file_path @ '': '' @ e) st'
      | (None, st') \<Rightarrow> st')"

text \<open>
  The two nested \<open>for\<close> loops of \<open>main\<close>; \<open>walked\<close> is the list of the pairs of
  \<open>root\<close> and \<open>files\<close> that \<open>os.walk(source_dir)\<close> yields during the run.
\<close>

definition walk_loop ::
  "'w os_ops \<Rightarrow> string \<Rightarrow> (string \<times> string list) list \<Rightarrow> 'w run_state \<Rightarrow> 'w run_state" where
  "walk_loop os dest_dir walked st =
     fold (\<lambda>(root, files) st.
             fold (\<lambda>file st. try_process os dest_dir (path_join root file) st) files st)
       walked st"

text \<open>
  \<open>main\<close> after the parsing of the arguments. The result is the exception that leaves
  \<open>main\<close>, if any, and the final state.
\<close>

definition main ::
  "'w os_ops \<Rightarrow> string \<Rightarrow> (string \<times> string list) list \<Rightarrow> 'w run_state \<Rightarrow> exc option \<times> 'w run_state" where
  "main os dest_dir walked st =
     (case os_makedirs os dest_dir (world st) of
        (Some e, w) \<Rightarrow> (Some e, st\<lparr>world := w\<rparr>)
      | (None, w) \<Rightarrow>
          (None, print (CHR 0x0A # ''Files have been organized in '' @ dest_dir)
                   (walk_loop os dest_dir walked (st\<lparr>world := w\<rparr>))))"

section \<open>A file system\<close>

text \<open>
  A file system in which the claims about whole runs are stated: the files are a map from
  paths to contents, directories are implicit, a file that does not exist cannot be read, and
  the paths of \<open>ro\<close> cannot be written.
\<close>

type_synonym fs = "string \<rightharpoonup> string"

definition fs_ops :: "string list \<Rightarrow> fs os_ops" where
  "fs_ops ro =
     \<lparr> os_makedirs = (\<lambda>p w. (None, w)),
       read_text = (\<lambda>p w. case w p of
                             None \<Rightarrow> Inl (''No such file or directory: '' @ p)
                           | Some content \<Rightarrow> Inr content),
       write_text = (\<lambda>p content w.
                       if p \<in> set ro then (Some (''Permission denied: '' @ p), w)
                       else (None, w(p \<mapsto> content))) \<rparr>"

text \<open>One run of the program on the file system \<open>w\<close>: the file system it leaves.\<close>

definition organize :: "string list \<Rightarrow> string \<Rightarrow> (string \<times> string list) list \<Rightarrow> fs \<Rightarrow> fs" where
  "organize ro dest_dir walked w =
     world (snd (main (fs_ops ro) dest_dir walked \<lparr>world = w, stdout = []\<rparr>))"

section \<open>Auxiliary definitions for the proofs\<close>

text \<open>
  The loop of \<open>extract_file_info\<close> seen on the lines still to read;
  \<open>main_loop_scan\<close> below relates it to \<open>main_loop\<close>. The remaining definitions name
  parts of the two patterns and state, without the matcher, the shape of a line that the
  patterns accept: \<open>is_path_prefix g r\<close> says that \<open>r\<close> begins with the path \<open>g\<close>,
  and \<open>marker_shape s p\<close> that the stripped line \<open>s\<close> is a marker for the path \<open>p\<close>.
\<close>

function scan_lines ::
  "string list \<Rightarrow> string option \<Rightarrow> string list \<Rightarrow> (string \<times> string) list \<Rightarrow> (string \<times> string) list" where
  "scan_lines [] cf cc fd =
     (case cf of
        None \<Rightarrow> fd
      | Some f \<Rightarrow> if f \<noteq> [] \<and> cc \<noteq> [] then fd @ [saved f cc] else fd)"
| "scan_lines (l # ls) cf cc fd =
     (if truthy (find_file_path l) then
        scan_lines (dropWhile skippable ls) (find_file_path l) []
          (case cf of None \<Rightarrow> fd | Some f \<Rightarrow> if f \<noteq> [] then fd @ [saved f cc] else fd)
      else scan_lines ls cf (if truthy cf then cc @ [l] else cc) fd)"
  by pat_completeness auto
termination
proof (relation "measure (\<lambda>(ls, cf, cc, fd). length ls)")
  show "wf (measure (\<lambda>(ls, cf, cc, fd). length ls))" by simp
next
  fix l :: string and ls :: "string list" and cf :: "string option" and cc :: "string list"
    and fd :: "(string \<times> string) list"
  have "length (dropWhile skippable ls) \<le> length ls" by (rule length_dropWhile_le)
  then show "((dropWhile skippable ls, find_file_path l, [],
       case cf of None \<Rightarrow> fd | Some f \<Rightarrow> if f \<noteq> [] then fd @ [saved f cc] else fd),
      l # ls, cf, cc, fd) \<in> measure (\<lambda>(ls, cf, cc, fd). length ls)"
    by simp
next
  fix l :: string and ls :: "string list" and cf :: "string option" and cc :: "string list"
    and fd :: "(string \<times> string) list"
  show "((ls, cf, if truthy cf then cc @ [l] else cc, fd), l # ls, cf, cc, fd)
      \<in> measure (\<lambda>(ls, cf, cc, fd). length ls)"
    by simp
qed

definition tail_rx :: regex where
  "tail_rx = Seq (Lit ''/'') (Seq (ClassPlus path_char) (Seq (Lit ''.'') (ClassPlus word_char)))"

definition tail_shape :: "string \<Rightarrow> string \<Rightarrow> string \<Rightarrow> string \<Rightarrow> bool" where
  "tail_shape t body ext rest \<longleftrightarrow>
     t = ''/'' @ body @ ''.'' @ ext @ rest \<and> body \<noteq> [] \<and> (\<forall>c \<in> set body. path_char c)
     \<and> ext \<noteq> [] \<and> (\<forall>c \<in> set ext. word_char c) \<and> (rest = [] \<or> \<not> word_char (hd rest))"

definition pre1 :: regex where
  "pre1 = Seq (Alt (Lit ''//'') (Lit ''#'')) (Lit '' '')"

definition path_group :: "string \<Rightarrow> string option" where
  "path_group r =
     (case rx_match path_rx r of [] \<Rightarrow> None | r' # _ \<Rightarrow> Some (take (length r - length r') r))"

definition is_path_prefix :: "string \<Rightarrow> string \<Rightarrow> bool" where
  "is_path_prefix g r \<longleftrightarrow>
     (\<exists>root body ext rest.
        r = g @ rest \<and> g = root @ ''/'' @ body @ ''.'' @ ext
        \<and> (root = ''apps'' \<or> root = ''packages'')
        \<and> body \<noteq> [] \<and> (\<forall>c \<in> set body. path_char c)
        \<and> ext \<noteq> [] \<and> (\<forall>c \<in> set ext. word_char c)
        \<and> (rest = [] \<or> \<not> word_char (hd rest)))"

definition marker_shape :: "string \<Rightarrow> string \<Rightarrow> bool" where
  "marker_shape s p \<longleftrightarrow>
     (\<exists>pre r. s = pre @ r \<and> (pre = ''// '' \<or> pre = ''# '' \<or> pre = []) \<and> is_path_prefix p r)"

text \<open>The path of the file being collected, as a list of at most one path.\<close>

definition open_path :: "string option \<Rightarrow> string list" where
  "open_path cf = (case cf of None \<Rightarrow> [] | Some f \<Rightarrow> [f])"

text \<open>
  The pair that the marker on line \<open>j\<close> of \<open>lines\<close> produces when the loop reaches
  it: the path of the marker, and the stripped join of the lines collected for it, which are
  the lines after line \<open>j\<close>, without the blank and comment lines that follow it
  immediately, up to the next marker line.
\<close>

definition marker_pair :: "string list \<Rightarrow> nat \<Rightarrow> string \<times> string" where
  "marker_pair lines j =
     (the (find_file_path (lines ! j)),
      strip (join_nl (takeWhile (\<lambda>l. find_file_path l = None)
        (dropWhile skippable (drop (Suc j) lines)))))"

text \<open>
  The pair, if any, that the file open in a state of the loop produces from the lines
  \<open>ls\<close> still to read: it is saved at the next marker line, or after the loop when
  lines have been collected for it.
\<close>

definition open_pair :: "string option \<Rightarrow> string list \<Rightarrow> string list \<Rightarrow> (string \<times> string) list" where
  "open_pair cf cc ls =
     (case cf of
        None \<Rightarrow> []
      | Some f \<Rightarrow>
          if f \<noteq> [] \<and> ((\<exists>l \<in> set ls. find_file_path l \<noteq> None)
               \<or> cc @ takeWhile (\<lambda>l. find_file_path l = None) ls \<noteq> [])
          then [saved f (cc @ takeWhile (\<lambda>l. find_file_path l = None) ls)]
          else [])"

text \<open>
  The marker on line \<open>j\<close> is swallowed when an earlier marker line is separated from it
  by blank and comment lines only and line \<open>j\<close> is itself a comment line: the loop that
  follows the earlier marker then skips it. A marker line produces a pair (it is emitting)
  when it is not swallowed and some line after it is neither blank nor a comment.
\<close>

definition swallowed :: "string list \<Rightarrow> nat \<Rightarrow> bool" where
  "swallowed lines j \<longleftrightarrow>
     (\<exists>i \<in> set [0..<j]. find_file_path (lines ! i) \<noteq> None
        \<and> (\<forall>k \<in> set [Suc i..<Suc j]. skippable (lines ! k)))"

definition emitting :: "string list \<Rightarrow> nat \<Rightarrow> bool" where
  "emitting lines j \<longleftrightarrow>
     find_file_path (lines ! j) \<noteq> None \<and> \<not> swallowed lines j
     \<and> dropWhile skippable (drop (Suc j) lines) \<noteq> []"

text \<open>
  The documents of a run in the order in which the loops of \<open>main\<close> reach them, and the
  loops as one loop over these documents.
\<close>

definition doc_paths :: "(string \<times> string list) list \<Rightarrow> string list" where
  "doc_paths walked = concat (map (\<lambda>(root, files). map (path_join root) files) walked)"

definition process_docs :: "'w os_ops \<Rightarrow> string \<Rightarrow> string list \<Rightarrow> 'w run_state \<Rightarrow> 'w run_state" where
  "process_docs os dest_dir docs st = fold (try_process os dest_dir) docs st"

text \<open>
  The writes that the document \<open>d\<close> causes when it is read in the file system \<open>w\<close>:
  the output path and content of each extracted pair, up to the first path that cannot be
  written. \<open>planned_writes\<close> are the writes of a list of documents all read in \<open>w\<close>, and
  \<open>apply_writes\<close> performs a list of writes.
\<close>

definition doc_writes :: "string list \<Rightarrow> fs \<Rightarrow> string \<Rightarrow> string \<Rightarrow> (string \<times> string) list" where
  "doc_writes ro w dest_dir d =
     (case w d of
        None \<Rightarrow> []
      | Some content \<Rightarrow>
          takeWhile (\<lambda>(q, c). q \<notin> set ro)
            (map (\<lambda>(p, c). (path_join dest_dir (normalize_path p), c))
               (extract_file_info content)))"

definition planned_writes :: "string list \<Rightarrow> fs \<Rightarrow> string \<Rightarrow> string list \<Rightarrow> (string \<times> string) list" where
  "planned_writes ro w dest_dir docs = concat (map (doc_writes ro w dest_dir) docs)"

definition apply_writes :: "(string \<times> string) list \<Rightarrow> fs \<Rightarrow> fs" where
  "apply_writes ws w = fold (\<lambda>(q, c) w. w(q \<mapsto> c)) ws w"


section \<open>The recognition of a marker in the words of the specification\<close>

text \<open>
  The specification describes a marker line as follows. Comment-prefixed: the line, after
  trimming, begins with a line-comment token (\<open>//\<close> or \<open>#\<close>) followed by whitespace and
  then a path whose first segment is \<open>apps\<close> or \<open>packages\<close>, followed by one or more
  path segments and a final segment with a file extension. Bare: the same path shape,
  anchored at line start, with no comment prefix. The three definitions below follow these
  words, with the path shape taken from the code; they are compared with \<open>find_file_path\<close>.
\<close>

definition spec_path_shape :: "string \<Rightarrow> bool" where
  "spec_path_shape r \<longleftrightarrow> rx_match path_rx r \<noteq> []"

definition spec_after_token :: "string \<Rightarrow> bool" where
  "spec_after_token r \<longleftrightarrow> r \<noteq> [] \<and> isspace (hd r) \<and> spec_path_shape (dropWhile isspace r)"

definition spec_is_marker :: "string \<Rightarrow> bool" where
  "spec_is_marker line \<longleftrightarrow>
     (startswith (strip line) ''//'' \<and> spec_after_token (drop (length ''//'') (strip line)))
     \<or> (startswith (strip line) ''#'' \<and> spec_after_token (drop (length ''#'') (strip line)))
     \<or> spec_path_shape line"


section \<open>The loop on the remaining lines, and what the patterns match\<close>

lemma drop_skip_loop:
  "drop (skip_loop lines i) lines = dropWhile skippable (drop i lines)"
proof (induction lines i rule: skip_loop.induct)
  case (1 lines i)
  show ?case
  proof (cases "i < length lines")
    case True
    then have d: "drop i lines = lines ! i # drop (i + 1) lines"
      by (simp add: Cons_nth_drop_Suc)
    show ?thesis
    proof (cases "skippable (lines ! i)")
      case sk: True
      have "skip_loop lines i = skip_loop lines (i + 1)"
        using True sk by (subst skip_loop.simps) simp
      moreover have "drop (skip_loop lines (i + 1)) lines = dropWhile skippable (drop (i + 1) lines)"
        using "1" True sk by blast
      ultimately show ?thesis using d sk by simp
    next
      case nsk: False
      have "skip_loop lines i = i"
        using nsk by (subst skip_loop.simps) simp
      then show ?thesis using d nsk by simp
    qed
  next
    case False
    have "skip_loop lines i = i"
      using False by (subst skip_loop.simps) simp
    then show ?thesis using False by simp
  qed
qed

lemma main_loop_scan:
  "finish (main_loop lines st) =
     scan_lines (drop (idx st) lines) (current_file st) (current_content st) (files_data st)"
proof (induction lines st rule: main_loop.induct)
  case (1 lines st)
  show ?case
  proof (cases "idx st < length lines")
    case True
    then have d: "drop (idx st) lines = lines ! idx st # drop (idx st + 1) lines"
      by (simp add: Cons_nth_drop_Suc)
    from True have "finish (main_loop lines st) = finish (main_loop lines (loop_step lines st))"
      by (subst main_loop.simps) simp
    also have "\<dots> = scan_lines (drop (idx (loop_step lines st)) lines)
        (current_file (loop_step lines st)) (current_content (loop_step lines st))
        (files_data (loop_step lines st))"
      using "1" True by blast
    also have "\<dots> = scan_lines (drop (idx st) lines) (current_file st) (current_content st)
        (files_data st)"
      unfolding d by (simp add: loop_step_def Let_def drop_skip_loop)
    finally show ?thesis .
  next
    case False
    then have "drop (idx st) lines = []" by simp
    moreover from False have "main_loop lines st = st"
      by (subst main_loop.simps) simp
    ultimately show ?thesis by (simp add: finish_def)
  qed
qed

lemma extract_scan: "extract_file_info content = scan_lines (split_nl content) None [] []"
  by (simp add: extract_file_info_def main_loop_scan init_state_def)

lemma scan_no_marker:
  "\<forall>l \<in> set ls. find_file_path l = None \<Longrightarrow> scan_lines ls None cc fd = fd"
  by (induction ls arbitrary: cc) simp_all

lemma plus_rests_Nil: "takeWhile P s = [] \<Longrightarrow> plus_rests P s = []"
  by (cases s) (auto split: if_splits)

lemma dropWhile_id: "takeWhile P s = [] \<Longrightarrow> dropWhile P s = s"
  by (cases s) (auto split: if_splits)

lemma plus_rests_hd:
  "takeWhile P s \<noteq> [] \<Longrightarrow> \<exists>rs. plus_rests P s = dropWhile P s # rs"
proof (induction s)
  case Nil
  then show ?case by simp
next
  case (Cons c cs)
  then have pc: "P c" by (auto split: if_splits)
  show ?case
  proof (cases "takeWhile P cs = []")
    case True
    then show ?thesis using pc by (simp add: plus_rests_Nil dropWhile_id)
  next
    case False
    with Cons.IH obtain rs where "plus_rests P cs = dropWhile P cs # rs" by blast
    then show ?thesis using pc by simp
  qed
qed

lemma plus_rests_then_char:
  assumes "\<not> P d"
  shows "concat (map (\<lambda>r. if take 1 r = [d] then f (drop 1 r) else []) (plus_rests P s)) =
     (if takeWhile P s \<noteq> [] \<and> take 1 (dropWhile P s) = [d]
      then f (drop 1 (dropWhile P s)) else [])"
proof (induction s)
  case Nil
  then show ?case by simp
next
  case (Cons c cs)
  show ?case
  proof (cases "P c")
    case False
    then show ?thesis by simp
  next
    case pc: True
    show ?thesis
    proof (cases "takeWhile P cs = []")
      case True
      then show ?thesis using pc by (simp add: plus_rests_Nil dropWhile_id)
    next
      case False
      then obtain c' cs' where cs: "cs = c' # cs'" and pc': "P c'"
        by (cases cs) (auto split: if_splits)
      from pc' assms have "c' \<noteq> d" by auto
      then have "take 1 cs \<noteq> [d]" using cs by simp
      then show ?thesis using pc False Cons.IH by simp
    qed
  qed
qed

lemma not_path_char_dot: "\<not> path_char (CHR ''.'')"
  by (simp add: path_char_def word_char_def)

lemma tail_rests:
  "rx_match tail_rx t =
     (if take 1 t = ''/'' \<and> takeWhile path_char (drop 1 t) \<noteq> []
         \<and> take 1 (dropWhile path_char (drop 1 t)) = ''.''
      then plus_rests word_char (drop 1 (dropWhile path_char (drop 1 t))) else [])"
proof -
  define inner where "inner = Seq (ClassPlus path_char) (Seq (Lit ''.'') (ClassPlus word_char))"
  have dot: "rx_match (Seq (Lit ''.'') (ClassPlus word_char)) =
      (\<lambda>r. if take 1 r = [CHR ''.''] then plus_rests word_char (drop 1 r) else [])"
    by (rule ext) simp
  have h: "rx_match inner u =
      (if takeWhile path_char u \<noteq> [] \<and> take 1 (dropWhile path_char u) = [CHR ''.'']
       then plus_rests word_char (drop 1 (dropWhile path_char u)) else [])" for u
    unfolding inner_def rx_match.simps(3)[of "ClassPlus path_char"] dot rx_match.simps(4)
    by (rule plus_rests_then_char [of path_char "CHR ''.''", OF not_path_char_dot])
  have "rx_match tail_rx t = concat (map (rx_match inner) (rx_match (Lit ''/'') t))"
    by (simp add: tail_rx_def inner_def)
  also have "\<dots> = (if take 1 t = ''/'' then rx_match inner (drop 1 t) else [])"
    by simp
  finally show ?thesis by (simp only: h) simp
qed

lemma takeWhile_stop:
  "(\<forall>c \<in> set xs. P c) \<Longrightarrow> ys = [] \<or> \<not> P (hd ys) \<Longrightarrow> takeWhile P (xs @ ys) = xs"
  by (cases ys) (auto simp: takeWhile_append2)

lemma dropWhile_stop:
  "(\<forall>c \<in> set xs. P c) \<Longrightarrow> ys = [] \<or> \<not> P (hd ys) \<Longrightarrow> dropWhile P (xs @ ys) = ys"
  by (cases ys) (auto simp: dropWhile_append2)

lemma run_decomp:
  "(takeWhile P s = xs \<and> dropWhile P s = ys) \<longleftrightarrow>
   (s = xs @ ys \<and> (\<forall>c \<in> set xs. P c) \<and> (ys = [] \<or> \<not> P (hd ys)))"
proof
  assume h: "takeWhile P s = xs \<and> dropWhile P s = ys"
  then have "s = xs @ ys" by (metis takeWhile_dropWhile_id)
  moreover from h have "\<forall>c \<in> set xs. P c" by (auto dest: set_takeWhileD)
  moreover from h have "ys = [] \<or> \<not> P (hd ys)" by (metis hd_dropWhile)
  ultimately show "s = xs @ ys \<and> (\<forall>c \<in> set xs. P c) \<and> (ys = [] \<or> \<not> P (hd ys))" by blast
next
  assume "s = xs @ ys \<and> (\<forall>c \<in> set xs. P c) \<and> (ys = [] \<or> \<not> P (hd ys))"
  then show "takeWhile P s = xs \<and> dropWhile P s = ys"
    using takeWhile_stop [of xs P ys] dropWhile_stop [of xs P ys] by blast
qed

lemma tail_shape_run:
  "tail_shape t body ext rest \<longleftrightarrow>
     take 1 t = ''/'' \<and> takeWhile path_char (drop 1 t) = body \<and> body \<noteq> []
     \<and> take 1 (dropWhile path_char (drop 1 t)) = ''.''
     \<and> takeWhile word_char (drop 1 (dropWhile path_char (drop 1 t))) = ext \<and> ext \<noteq> []
     \<and> dropWhile word_char (drop 1 (dropWhile path_char (drop 1 t))) = rest"
proof
  assume "tail_shape t body ext rest"
  then have t: "t = ''/'' @ body @ ''.'' @ ext @ rest" and b: "body \<noteq> []"
    and pb: "\<forall>c \<in> set body. path_char c" and e: "ext \<noteq> []"
    and pe: "\<forall>c \<in> set ext. word_char c" and r: "rest = [] \<or> \<not> word_char (hd rest)"
    by (simp_all add: tail_shape_def)
  have 1: "drop 1 t = body @ (''.'' @ ext @ rest)" using t by simp
  have 2: "takeWhile path_char (drop 1 t) = body \<and> dropWhile path_char (drop 1 t) = ''.'' @ ext @ rest"
    unfolding run_decomp using 1 pb not_path_char_dot by simp
  have 3: "takeWhile word_char (ext @ rest) = ext \<and> dropWhile word_char (ext @ rest) = rest"
    unfolding run_decomp using pe r by simp
  show "take 1 t = ''/'' \<and> takeWhile path_char (drop 1 t) = body \<and> body \<noteq> []
     \<and> take 1 (dropWhile path_char (drop 1 t)) = ''.''
     \<and> takeWhile word_char (drop 1 (dropWhile path_char (drop 1 t))) = ext \<and> ext \<noteq> []
     \<and> dropWhile word_char (drop 1 (dropWhile path_char (drop 1 t))) = rest"
    using t b e 2 3 by simp
next
  assume h: "take 1 t = ''/'' \<and> takeWhile path_char (drop 1 t) = body \<and> body \<noteq> []
     \<and> take 1 (dropWhile path_char (drop 1 t)) = ''.''
     \<and> takeWhile word_char (drop 1 (dropWhile path_char (drop 1 t))) = ext \<and> ext \<noteq> []
     \<and> dropWhile word_char (drop 1 (dropWhile path_char (drop 1 t))) = rest"
  define v where "v = dropWhile path_char (drop 1 t)"
  define w where "w = drop 1 v"
  have t1: "t = ''/'' @ drop 1 t" using h by (metis append_take_drop_id)
  have "takeWhile path_char (drop 1 t) = body \<and> dropWhile path_char (drop 1 t) = v"
    using h v_def by simp
  then have u: "drop 1 t = body @ v" and pb: "\<forall>c \<in> set body. path_char c"
    unfolding run_decomp by simp_all
  have v1: "v = ''.'' @ w" using h v_def w_def by (metis append_take_drop_id)
  have "takeWhile word_char w = ext \<and> dropWhile word_char w = rest"
    using h v_def w_def by simp
  then have w1: "w = ext @ rest" and pe: "\<forall>c \<in> set ext. word_char c"
    and r: "rest = [] \<or> \<not> word_char (hd rest)"
    unfolding run_decomp by simp_all
  have "t = ''/'' @ body @ ''.'' @ ext @ rest" using t1 u v1 w1 by simp
  then show "tail_shape t body ext rest"
    using h pb pe r by (simp add: tail_shape_def)
qed

lemma take_lit: "take (length l) s = l \<longleftrightarrow> (\<exists>r. s = l @ r)"
  by (metis append_eq_conv_conj append_take_drop_id)

lemma lit_match: "rx_match (Lit l) (l @ r) = [r]"
  by simp

lemma lit_nomatch: "\<nexists>r. s = l @ r \<Longrightarrow> rx_match (Lit l) s = []"
  using take_lit [of l s] by simp

lemma pre1_slash: "rx_match pre1 (''// '' @ r) = [r]"
  by (simp add: pre1_def)

lemma pre1_hash: "rx_match pre1 (''# '' @ r) = [r]"
  by (simp add: pre1_def)

lemma pre1_none:
  assumes "\<nexists>r. s = ''// '' @ r" and "\<nexists>r. s = ''# '' @ r"
  shows "rx_match pre1 s = []"
proof -
  have 1: "concat (map (rx_match (Lit '' '')) (rx_match (Lit ''//'') s)) = []"
  proof (cases "\<exists>r. s = ''//'' @ r")
    case True
    then obtain r where r: "s = ''//'' @ r" by blast
    with assms(1) have "\<nexists>r'. r = '' '' @ r'" by auto
    then have "rx_match (Lit '' '') r = []" by (rule lit_nomatch)
    then show ?thesis unfolding r lit_match by simp
  next
    case False
    then have "rx_match (Lit ''//'') s = []" by (rule lit_nomatch)
    then show ?thesis by (simp only: list.map concat.simps)
  qed
  have 2: "concat (map (rx_match (Lit '' '')) (rx_match (Lit ''#'') s)) = []"
  proof (cases "\<exists>r. s = ''#'' @ r")
    case True
    then obtain r where r: "s = ''#'' @ r" by blast
    with assms(2) have "\<nexists>r'. r = '' '' @ r'" by auto
    then have "rx_match (Lit '' '') r = []" by (rule lit_nomatch)
    then show ?thesis unfolding r lit_match by simp
  next
    case False
    then have "rx_match (Lit ''#'') s = []" by (rule lit_nomatch)
    then show ?thesis by (simp only: list.map concat.simps)
  qed
  have "rx_match pre1 s = concat (map (rx_match (Lit '' '')) (rx_match (Lit ''//'') s))
      @ concat (map (rx_match (Lit '' '')) (rx_match (Lit ''#'') s))"
    unfolding pre1_def rx_match.simps(3) rx_match.simps(2) by (simp only: map_append concat_append)
  then show ?thesis by (simp only: 1 2 append_Nil)
qed

lemma tail_shape_fun:
  "tail_shape t body ext rest \<Longrightarrow> tail_shape t body' ext' rest' \<Longrightarrow>
     body' = body \<and> ext' = ext \<and> rest' = rest"
  unfolding tail_shape_run by simp

lemma tail_match_Some:
  assumes "tail_shape t body ext rest"
  shows "\<exists>rs. rx_match tail_rx t = rest # rs"
proof -
  define w where "w = drop 1 (dropWhile path_char (drop 1 t))"
  from assms have c: "take 1 t = ''/''" "takeWhile path_char (drop 1 t) \<noteq> []"
    "take 1 (dropWhile path_char (drop 1 t)) = ''.''"
    and e: "takeWhile word_char w \<noteq> []" and r: "dropWhile word_char w = rest"
    unfolding tail_shape_run w_def by simp_all
  from c have "rx_match tail_rx t = plus_rests word_char w"
    unfolding tail_rests w_def by simp
  with plus_rests_hd [OF e] r show ?thesis by simp
qed

lemma tail_match_None:
  assumes "\<nexists>body ext rest. tail_shape t body ext rest"
  shows "rx_match tail_rx t = []"
proof (rule ccontr)
  assume ne: "rx_match tail_rx t \<noteq> []"
  define w where "w = drop 1 (dropWhile path_char (drop 1 t))"
  from ne have c: "take 1 t = ''/''" "takeWhile path_char (drop 1 t) \<noteq> []"
    "take 1 (dropWhile path_char (drop 1 t)) = ''.''"
    unfolding tail_rests by (simp_all split: if_splits)
  with ne have "plus_rests word_char w \<noteq> []"
    unfolding tail_rests w_def by simp
  then have "takeWhile word_char w \<noteq> []" using plus_rests_Nil by blast
  with c have "tail_shape t (takeWhile path_char (drop 1 t)) (takeWhile word_char w)
      (dropWhile word_char w)"
    unfolding tail_shape_run w_def by simp
  with assms show False by blast
qed

lemma path_rx_tail:
  "rx_match path_rx s =
     concat (map (rx_match tail_rx) (rx_match (Lit ''apps'') s))
     @ concat (map (rx_match tail_rx) (rx_match (Lit ''packages'') s))"
  by (simp only: path_rx_def tail_rx_def rx_match.simps(3) rx_match.simps(2) map_append
      concat_append)

lemma path_rx_apps: "rx_match path_rx (''apps'' @ t) = rx_match tail_rx t"
  unfolding path_rx_tail by simp

lemma path_rx_packages: "rx_match path_rx (''packages'' @ t) = rx_match tail_rx t"
  unfolding path_rx_tail by simp

lemma path_rx_other:
  assumes "\<nexists>t. s = ''apps'' @ t" and "\<nexists>t. s = ''packages'' @ t"
  shows "rx_match path_rx s = []"
  unfolding path_rx_tail lit_nomatch [OF assms(1)] lit_nomatch [OF assms(2)] by simp

lemma path_group_root:
  assumes "rx_match path_rx (root @ t) = rx_match tail_rx t"
  shows "path_group (root @ t) = Some g \<longleftrightarrow>
     (\<exists>body ext rest. tail_shape t body ext rest \<and> g = root @ ''/'' @ body @ ''.'' @ ext)"
proof (cases "\<exists>body ext rest. tail_shape t body ext rest")
  case True
  then obtain body ext rest where ts: "tail_shape t body ext rest" by blast
  then obtain rs where rs: "rx_match tail_rx t = rest # rs" using tail_match_Some by blast
  have pg: "path_group (root @ t) = Some (take (length (root @ t) - length rest) (root @ t))"
    unfolding path_group_def assms rs by simp
  from ts have t: "t = ''/'' @ body @ ''.'' @ ext @ rest" by (simp add: tail_shape_def)
  have "take (length (root @ t) - length rest) (root @ t) = root @ ''/'' @ body @ ''.'' @ ext"
    unfolding t by simp
  then have G: "path_group (root @ t) = Some (root @ ''/'' @ body @ ''.'' @ ext)"
    by (simp only: pg)
  show ?thesis
  proof
    assume "path_group (root @ t) = Some g"
    with G have "g = root @ ''/'' @ body @ ''.'' @ ext" by simp
    with ts show "\<exists>body ext rest. tail_shape t body ext rest \<and> g = root @ ''/'' @ body @ ''.'' @ ext"
      by blast
  next
    assume "\<exists>body ext rest. tail_shape t body ext rest \<and> g = root @ ''/'' @ body @ ''.'' @ ext"
    then obtain body' ext' rest' where ts': "tail_shape t body' ext' rest'"
      and g: "g = root @ ''/'' @ body' @ ''.'' @ ext'" by blast
    from tail_shape_fun [OF ts ts'] have "body' = body" "ext' = ext" by simp_all
    with g G show "path_group (root @ t) = Some g" by simp
  qed
next
  case False
  then have e: "rx_match tail_rx t = []" by (rule tail_match_None)
  have "path_group (root @ t) = None"
    unfolding path_group_def assms e by simp
  then show ?thesis using False by simp
qed

lemma is_path_prefix_tail:
  "is_path_prefix g r \<longleftrightarrow>
     (\<exists>root t body ext rest. (root = ''apps'' \<or> root = ''packages'') \<and> r = root @ t
        \<and> tail_shape t body ext rest \<and> g = root @ ''/'' @ body @ ''.'' @ ext)"
proof
  assume "is_path_prefix g r"
  then obtain root body ext rest where h: "r = g @ rest" "g = root @ ''/'' @ body @ ''.'' @ ext"
    "root = ''apps'' \<or> root = ''packages''" "body \<noteq> []" "\<forall>c \<in> set body. path_char c"
    "ext \<noteq> []" "\<forall>c \<in> set ext. word_char c" "rest = [] \<or> \<not> word_char (hd rest)"
    unfolding is_path_prefix_def by blast
  have "r = root @ (''/'' @ body @ ''.'' @ ext @ rest)" using h(1,2) by simp
  moreover have "tail_shape (''/'' @ body @ ''.'' @ ext @ rest) body ext rest"
    unfolding tail_shape_def using h by blast
  ultimately show "\<exists>root t body ext rest. (root = ''apps'' \<or> root = ''packages'') \<and> r = root @ t
        \<and> tail_shape t body ext rest \<and> g = root @ ''/'' @ body @ ''.'' @ ext"
    using h(2,3) by blast
next
  assume "\<exists>root t body ext rest. (root = ''apps'' \<or> root = ''packages'') \<and> r = root @ t
        \<and> tail_shape t body ext rest \<and> g = root @ ''/'' @ body @ ''.'' @ ext"
  then obtain root t body ext rest where h: "root = ''apps'' \<or> root = ''packages''"
    "r = root @ t" "tail_shape t body ext rest" "g = root @ ''/'' @ body @ ''.'' @ ext"
    by blast
  from h(3) have t: "t = ''/'' @ body @ ''.'' @ ext @ rest" and b: "body \<noteq> []"
    "\<forall>c \<in> set body. path_char c" "ext \<noteq> []" "\<forall>c \<in> set ext. word_char c"
    "rest = [] \<or> \<not> word_char (hd rest)"
    unfolding tail_shape_def by blast+
  have "r = g @ rest" using h(2,4) t by simp
  then show "is_path_prefix g r"
    unfolding is_path_prefix_def using h(1,4) b by blast
qed

lemma apps_not_packages: "''apps'' @ t \<noteq> ''packages'' @ t'"
  by simp

lemma root_apps:
  assumes "root = ''apps'' \<or> root = ''packages''" and "''apps'' @ t = root @ t'"
  shows "root = ''apps'' \<and> t' = t"
proof -
  from assms(2) have "root \<noteq> ''packages''" using apps_not_packages by blast
  with assms(1) have r: "root = ''apps''" by blast
  with assms(2) have "t' = t" by simp
  with r show ?thesis by blast
qed

lemma root_packages:
  assumes "root = ''apps'' \<or> root = ''packages''" and "''packages'' @ t = root @ t'"
  shows "root = ''packages'' \<and> t' = t"
proof -
  from assms(2) have "root \<noteq> ''apps''" using apps_not_packages by metis
  with assms(1) have r: "root = ''packages''" by blast
  with assms(2) have "t' = t" by simp
  with r show ?thesis by blast
qed

lemma path_group_rooted:
  assumes rx: "rx_match path_rx (root0 @ t) = rx_match tail_rx t"
    and uniq: "\<And>root t'. root = ''apps'' \<or> root = ''packages'' \<Longrightarrow> root0 @ t = root @ t'
        \<Longrightarrow> root = root0 \<and> t' = t"
    and r0: "root0 = ''apps'' \<or> root0 = ''packages''"
  shows "path_group (root0 @ t) = Some g \<longleftrightarrow> is_path_prefix g (root0 @ t)"
proof
  assume "path_group (root0 @ t) = Some g"
  then obtain body ext rest where "tail_shape t body ext rest"
    "g = root0 @ ''/'' @ body @ ''.'' @ ext"
    unfolding path_group_root [OF rx] by blast
  then show "is_path_prefix g (root0 @ t)"
    unfolding is_path_prefix_tail using r0 by blast
next
  assume "is_path_prefix g (root0 @ t)"
  then obtain root t' body ext rest where h: "root = ''apps'' \<or> root = ''packages''"
    "root0 @ t = root @ t'" "tail_shape t' body ext rest" "g = root @ ''/'' @ body @ ''.'' @ ext"
    unfolding is_path_prefix_tail by blast
  from uniq [OF h(1,2)] have "root = root0" "t' = t" by blast+
  with h(3,4) have "tail_shape t body ext rest" "g = root0 @ ''/'' @ body @ ''.'' @ ext"
    by blast+
  then show "path_group (root0 @ t) = Some g"
    unfolding path_group_root [OF rx] by blast
qed

lemma path_group_iff: "path_group r = Some g \<longleftrightarrow> is_path_prefix g r"
proof -
  consider (apps) t where "r = ''apps'' @ t" | (packages) t where "r = ''packages'' @ t"
    | (other) "\<nexists>t. r = ''apps'' @ t" "\<nexists>t. r = ''packages'' @ t"
    by blast
  then show ?thesis
  proof cases
    case apps
    show ?thesis unfolding apps
      by (rule path_group_rooted [OF path_rx_apps root_apps]) blast+
  next
    case packages
    show ?thesis unfolding packages
      by (rule path_group_rooted [OF path_rx_packages root_packages]) blast+
  next
    case other
    have "path_group r = None"
      unfolding path_group_def path_rx_other [OF other] by simp
    moreover have "\<not> is_path_prefix g r"
      unfolding is_path_prefix_tail using other by blast
    ultimately show ?thesis by simp
  qed
qed

lemma case_map_hd:
  "(case map f xs of [] \<Rightarrow> None | g # _ \<Rightarrow> Some g) = (case xs of [] \<Rightarrow> None | x # _ \<Rightarrow> Some (f x))"
  by (cases xs) simp_all

lemma group1_single:
  assumes "rx_match pre s = [r]"
  shows "re_match_group1 (pre, path_rx) s = path_group r"
  unfolding re_match_group1_def fst_conv snd_conv assms path_group_def
  by (simp add: case_map_hd)

lemma group1_none:
  assumes "rx_match pre s = []"
  shows "re_match_group1 (pre, path_rx) s = None"
  unfolding re_match_group1_def fst_conv snd_conv assms by simp

lemma file_patterns_pre1: "file_patterns = [(pre1, path_rx), (Lit [], path_rx)]"
  by (simp add: file_patterns_def pre1_def)

lemma lit_empty: "rx_match (Lit []) s = [s]"
  by simp

lemma first_match_slash:
  "first_match file_patterns (''// '' @ r) = path_group r"
proof -
  have 1: "re_match_group1 (pre1, path_rx) (''// '' @ r) = path_group r"
    by (rule group1_single [OF pre1_slash])
  have "rx_match path_rx (''// '' @ r) = []"
    by (rule path_rx_other) simp_all
  then have 2: "path_group (''// '' @ r) = None"
    unfolding path_group_def by simp
  have 3: "re_match_group1 (Lit [], path_rx) (''// '' @ r) = path_group (''// '' @ r)"
    by (rule group1_single [OF lit_empty])
  show ?thesis
    unfolding file_patterns_pre1 first_match.simps 1 3 2
    by (cases "path_group r") simp_all
qed

lemma first_match_hash:
  "first_match file_patterns (''# '' @ r) = path_group r"
proof -
  have 1: "re_match_group1 (pre1, path_rx) (''# '' @ r) = path_group r"
    by (rule group1_single [OF pre1_hash])
  have "rx_match path_rx (''# '' @ r) = []"
    by (rule path_rx_other) simp_all
  then have 2: "path_group (''# '' @ r) = None"
    unfolding path_group_def by simp
  have 3: "re_match_group1 (Lit [], path_rx) (''# '' @ r) = path_group (''# '' @ r)"
    by (rule group1_single [OF lit_empty])
  show ?thesis
    unfolding file_patterns_pre1 first_match.simps 1 3 2
    by (cases "path_group r") simp_all
qed

lemma first_match_bare:
  assumes "\<nexists>r. s = ''// '' @ r" and "\<nexists>r. s = ''# '' @ r"
  shows "first_match file_patterns s = path_group s"
proof -
  have 1: "re_match_group1 (pre1, path_rx) s = None"
    by (rule group1_none [OF pre1_none [OF assms]])
  have 3: "re_match_group1 (Lit [], path_rx) s = path_group s"
    by (rule group1_single [OF lit_empty])
  show ?thesis
    unfolding file_patterns_pre1 first_match.simps 1 3
    by (cases "path_group s") simp_all
qed

lemma is_path_prefix_start:
  assumes "is_path_prefix p r"
  shows "(\<exists>t. r = ''apps'' @ t) \<or> (\<exists>t. r = ''packages'' @ t)"
  using assms unfolding is_path_prefix_tail by blast

lemma not_path_slash: "\<not> is_path_prefix p (''// '' @ r)"
proof
  assume "is_path_prefix p (''// '' @ r)"
  from is_path_prefix_start [OF this] show False by simp
qed

lemma not_path_hash: "\<not> is_path_prefix p (''# '' @ r)"
proof
  assume "is_path_prefix p (''# '' @ r)"
  from is_path_prefix_start [OF this] show False by simp
qed

lemma marker_shape_slash: "marker_shape (''// '' @ r0) p \<longleftrightarrow> is_path_prefix p r0"
proof
  assume "marker_shape (''// '' @ r0) p"
  then obtain pre r where h: "''// '' @ r0 = pre @ r" "pre = ''// '' \<or> pre = ''# '' \<or> pre = []"
    "is_path_prefix p r"
    unfolding marker_shape_def by blast
  from h(2) show "is_path_prefix p r0"
  proof (elim disjE)
    assume "pre = ''// ''"
    with h(1) have "r = r0" by simp
    with h(3) show ?thesis by simp
  next
    assume "pre = ''# ''"
    with h(1) show ?thesis by simp
  next
    assume "pre = []"
    with h(1) have "r = ''// '' @ r0" by simp
    with h(3) not_path_slash show ?thesis by blast
  qed
next
  assume "is_path_prefix p r0"
  then show "marker_shape (''// '' @ r0) p"
    unfolding marker_shape_def by blast
qed

lemma marker_shape_hash: "marker_shape (''# '' @ r0) p \<longleftrightarrow> is_path_prefix p r0"
proof
  assume "marker_shape (''# '' @ r0) p"
  then obtain pre r where h: "''# '' @ r0 = pre @ r" "pre = ''// '' \<or> pre = ''# '' \<or> pre = []"
    "is_path_prefix p r"
    unfolding marker_shape_def by blast
  from h(2) show "is_path_prefix p r0"
  proof (elim disjE)
    assume "pre = ''// ''"
    with h(1) show ?thesis by simp
  next
    assume "pre = ''# ''"
    with h(1) have "r = r0" by simp
    with h(3) show ?thesis by simp
  next
    assume "pre = []"
    with h(1) have "r = ''# '' @ r0" by simp
    with h(3) not_path_hash show ?thesis by blast
  qed
next
  assume "is_path_prefix p r0"
  then show "marker_shape (''# '' @ r0) p"
    unfolding marker_shape_def by blast
qed

lemma marker_shape_bare:
  assumes "\<nexists>r. s = ''// '' @ r" and "\<nexists>r. s = ''# '' @ r"
  shows "marker_shape s p \<longleftrightarrow> is_path_prefix p s"
proof
  assume "marker_shape s p"
  then obtain pre r where h: "s = pre @ r" "pre = ''// '' \<or> pre = ''# '' \<or> pre = []"
    "is_path_prefix p r"
    unfolding marker_shape_def by blast
  from h(1,2) assms have "pre = []" by blast
  with h(1,3) show "is_path_prefix p s" by simp
next
  assume "is_path_prefix p s"
  then have "s = [] @ s \<and> is_path_prefix p s" by simp
  then show "marker_shape s p"
    unfolding marker_shape_def by blast
qed

lemma first_match_iff: "first_match file_patterns s = Some p \<longleftrightarrow> marker_shape s p"
proof -
  consider (slash) r where "s = ''// '' @ r" | (hash) r where "s = ''# '' @ r"
    | (bare) "\<nexists>r. s = ''// '' @ r" "\<nexists>r. s = ''# '' @ r"
    by blast
  then show ?thesis
  proof cases
    case slash
    show ?thesis unfolding slash first_match_slash marker_shape_slash by (rule path_group_iff)
  next
    case hash
    show ?thesis unfolding hash first_match_hash marker_shape_hash by (rule path_group_iff)
  next
    case bare
    show ?thesis unfolding first_match_bare [OF bare] marker_shape_bare [OF bare]
      by (rule path_group_iff)
  qed
qed

lemma find_file_path_iff: "find_file_path line = Some p \<longleftrightarrow> marker_shape (strip line) p"
  unfolding find_file_path_def by (rule first_match_iff)

lemma is_path_prefix_nonempty: "is_path_prefix p r \<Longrightarrow> p \<noteq> []"
  unfolding is_path_prefix_def by auto

lemma find_file_path_nonempty: "find_file_path l = Some p \<Longrightarrow> p \<noteq> []"
  unfolding find_file_path_iff marker_shape_def using is_path_prefix_nonempty by blast

lemma truthy_find: "truthy (find_file_path l) \<longleftrightarrow> find_file_path l \<noteq> None"
  by (cases "find_file_path l") (auto dest: find_file_path_nonempty)

lemma scan_marker:
  assumes "find_file_path l = Some p"
  shows "scan_lines (l # ls) cf cc fd =
     scan_lines (dropWhile skippable ls) (Some p) []
       (case cf of None \<Rightarrow> fd | Some f \<Rightarrow> if f \<noteq> [] then fd @ [saved f cc] else fd)"
  using assms find_file_path_nonempty [OF assms] by simp

lemma scan_other:
  assumes "find_file_path l = None"
  shows "scan_lines (l # ls) cf cc fd = scan_lines ls cf (if truthy cf then cc @ [l] else cc) fd"
  using assms by simp

lemma scan_discard:
  "\<forall>l \<in> set pre. find_file_path l = None \<Longrightarrow>
     scan_lines (pre @ rest) None cc fd = scan_lines rest None cc fd"
  by (induction pre) (simp_all add: scan_other del: scan_lines.simps)

lemma scan_collect:
  "\<forall>l \<in> set ls. find_file_path l = None \<Longrightarrow> f \<noteq> [] \<Longrightarrow>
     scan_lines ls (Some f) cc fd = (if cc @ ls \<noteq> [] then fd @ [saved f (cc @ ls)] else fd)"
proof (induction ls arbitrary: cc)
  case Nil
  then show ?case by simp
next
  case (Cons l ls)
  then have "scan_lines (l # ls) (Some f) cc fd = scan_lines ls (Some f) (cc @ [l]) fd"
    by (simp add: scan_other del: scan_lines.simps)
  also have "\<dots> = (if (cc @ [l]) @ ls \<noteq> [] then fd @ [saved f ((cc @ [l]) @ ls)] else fd)"
    using Cons by simp
  finally show ?case by simp
qed

lemma scan_single_marker:
  assumes pre: "\<forall>l \<in> set pre. find_file_path l = None"
    and m: "find_file_path m = Some p"
    and post: "\<forall>l \<in> set post. find_file_path l = None"
    and content: "\<exists>l \<in> set post. \<not> skippable l"
  shows "scan_lines (pre @ m # post) None [] [] = [(p, strip (join_nl (dropWhile skippable post)))]"
proof -
  have ne: "dropWhile skippable post \<noteq> []"
    using content by (simp add: dropWhile_eq_Nil_conv)
  have nm: "\<forall>l \<in> set (dropWhile skippable post). find_file_path l = None"
    using post set_dropWhileD by fastforce
  have "scan_lines (pre @ m # post) None [] [] = scan_lines (m # post) None [] []"
    by (rule scan_discard [OF pre])
  also have "\<dots> = scan_lines (dropWhile skippable post) (Some p) [] []"
    by (simp add: scan_marker [OF m] del: scan_lines.simps)
  also have "\<dots> = [saved p (dropWhile skippable post)]"
    using scan_collect [OF nm find_file_path_nonempty [OF m], of "[]" "[]"] ne by simp
  finally show ?thesis by (simp add: saved_def)
qed


section \<open>The loops as while loops\<close>

lemma skip_loop_ge: "i \<le> skip_loop lines i"
proof (induction lines i rule: skip_loop.induct)
  case (1 lines i)
  show ?case
  proof (cases "i < length lines \<and> skippable (lines ! i)")
    case True
    with "1" have "i + 1 \<le> skip_loop lines (i + 1)" by blast
    moreover from True have "skip_loop lines i = skip_loop lines (i + 1)"
      by (subst skip_loop.simps) simp
    ultimately show ?thesis by simp
  next
    case False
    then have "skip_loop lines i = i"
      by (subst skip_loop.simps) auto
    then show ?thesis by simp
  qed
qed

lemma idx_loop_step: "idx st < idx (loop_step lines st)"
proof -
  have "idx st + 1 \<le> skip_loop lines (idx st + 1)" by (rule skip_loop_ge)
  then show ?thesis by (simp add: loop_step_def Let_def)
qed

lemma skip_loop_while:
  "while_option (\<lambda>i. i < length lines \<and> skippable (lines ! i)) (\<lambda>i. i + 1) i
     = Some (skip_loop lines i)"
proof (induction lines i rule: skip_loop.induct)
  case (1 lines i)
  show ?case
  proof (cases "i < length lines \<and> skippable (lines ! i)")
    case True
    with "1" have "while_option (\<lambda>i. i < length lines \<and> skippable (lines ! i)) (\<lambda>i. i + 1) (i + 1)
        = Some (skip_loop lines (i + 1))" by blast
    moreover from True have "skip_loop lines i = skip_loop lines (i + 1)"
      by (subst skip_loop.simps) simp
    ultimately show ?thesis using True by (subst while_option_unfold) simp
  next
    case False
    then have "skip_loop lines i = i"
      by (subst skip_loop.simps) auto
    with False show ?thesis by (subst while_option_unfold) auto
  qed
qed

lemma main_loop_while:
  "while_option (\<lambda>st. idx st < length lines) (loop_step lines) st = Some (main_loop lines st)"
proof (induction lines st rule: main_loop.induct)
  case (1 lines st)
  show ?case
  proof (cases "idx st < length lines")
    case True
    with "1" have "while_option (\<lambda>st. idx st < length lines) (loop_step lines) (loop_step lines st)
        = Some (main_loop lines (loop_step lines st))" by blast
    moreover from True have "main_loop lines st = main_loop lines (loop_step lines st)"
      by (subst main_loop.simps) simp
    ultimately show ?thesis using True by (subst while_option_unfold) simp
  next
    case False
    then have "main_loop lines st = st"
      by (subst main_loop.simps) simp
    with False show ?thesis by (subst while_option_unfold) simp
  qed
qed


section \<open>The paths of the result and the marker lines\<close>

lemma subseq_snoc: "subseq xs (xs @ ys)"
  by (rule subseq_rev_drop_many) (rule subseq_order.order_refl)

lemma subseq_cons: "subseq xs (y # xs)"
  by (rule list_emb_Cons) (rule subseq_order.order_refl)

lemma subseq_set: "subseq xs ys \<Longrightarrow> set xs \<subseteq> set ys"
  by (induction rule: list_emb.induct) auto

lemma map_filter_dropWhile:
  "subseq (List.map_filter f (dropWhile P ls)) (List.map_filter f ls)"
proof (induction ls)
  case Nil
  show ?case by simp
next
  case (Cons l ls)
  show ?case
  proof (cases "P l")
    case True
    then have "subseq (List.map_filter f (dropWhile P (l # ls))) (List.map_filter f ls)"
      using Cons by simp
    also have "subseq (List.map_filter f ls) (List.map_filter f (l # ls))"
      by (cases "f l") (simp_all add: map_filter_simps subseq_cons)
    finally show ?thesis .
  next
    case False
    then show ?thesis by simp
  qed
qed

lemma scan_paths_subseq:
  "subseq (map fst (scan_lines ls cf cc fd))
     (map fst fd @ open_path cf @ List.map_filter find_file_path ls)"
proof (induction ls cf cc fd rule: scan_lines.induct)
  case (1 cf cc fd)
  show ?case by (cases cf) (simp_all add: open_path_def saved_def subseq_snoc)
next
  case (2 l ls cf cc fd)
  show ?case
  proof (cases "find_file_path l")
    case None
    then have nt: "\<not> truthy (find_file_path l)" by simp
    from "2.IH"(2) [OF nt] None nt show ?thesis
      by (simp add: map_filter_simps)
  next
    case (Some p)
    then have t: "truthy (find_file_path l)" unfolding truthy_find by simp
    define fd' where "fd' = (case cf of None \<Rightarrow> fd | Some f \<Rightarrow> if f \<noteq> [] then fd @ [saved f cc] else fd)"
    have eq: "scan_lines (l # ls) cf cc fd = scan_lines (dropWhile skippable ls) (Some p) [] fd'"
      using t Some by (simp add: fd'_def)
    have "subseq (map fst (scan_lines (dropWhile skippable ls) (Some p) [] fd'))
        (map fst fd' @ open_path (Some p) @ List.map_filter find_file_path (dropWhile skippable ls))"
      using "2.IH"(1) [OF t] Some by (simp add: fd'_def)
    also have "subseq (map fst fd' @ open_path (Some p) @ List.map_filter find_file_path (dropWhile skippable ls))
        ((map fst fd @ open_path cf) @ [p] @ List.map_filter find_file_path ls)"
    proof -
      have a: "subseq (map fst fd') (map fst fd @ open_path cf)"
        by (cases cf) (simp_all add: fd'_def open_path_def saved_def subseq_snoc)
      have b: "subseq ([p] @ List.map_filter find_file_path (dropWhile skippable ls))
          ([p] @ List.map_filter find_file_path ls)"
        using map_filter_dropWhile [of find_file_path skippable ls] by simp
      from a b show ?thesis
        unfolding open_path_def option.case by (rule list_emb_append_mono)
    qed
    finally show ?thesis using eq Some by (simp add: map_filter_simps)
  qed
qed

lemma extract_paths_subseq:
  "subseq (map fst (extract_file_info content)) (List.map_filter find_file_path (split_nl content))"
  unfolding extract_scan using scan_paths_subseq [of "split_nl content" None "[]" "[]"]
  by (simp add: open_path_def)

lemma extract_path_marker:
  assumes "(p, c) \<in> set (extract_file_info content)"
  shows "\<exists>l \<in> set (split_nl content). find_file_path l = Some p"
proof -
  from assms have "p \<in> set (map fst (extract_file_info content))" by force
  moreover have "set (map fst (extract_file_info content))
      \<subseteq> set (List.map_filter find_file_path (split_nl content))"
    using extract_paths_subseq [of content] by (rule subseq_set)
  ultimately have "p \<in> set (List.map_filter find_file_path (split_nl content))"
    by blast
  then show ?thesis by (auto simp add: map_filter_def)
qed


section \<open>The result as the pairs of marker lines\<close>

lemma open_pair_Nil:
  "scan_lines [] cf cc fd = fd @ open_pair cf cc []"
  by (cases cf) (simp_all add: open_pair_def)

lemma open_pair_marker:
  assumes "find_file_path l \<noteq> None"
  shows "(case cf of None \<Rightarrow> fd | Some f \<Rightarrow> if f \<noteq> [] then fd @ [saved f cc] else fd)
     = fd @ open_pair cf cc (l # ls)"
proof -
  from assms obtain p where "find_file_path l = Some p" by blast
  then show ?thesis by (cases cf) (simp_all add: open_pair_def)
qed

lemma open_pair_other:
  assumes "find_file_path l = None"
  shows "open_pair cf (if truthy cf then cc @ [l] else cc) ls = open_pair cf cc (l # ls)"
proof (cases cf)
  case None
  then show ?thesis by (simp add: open_pair_def)
next
  case (Some f)
  show ?thesis
  proof (cases "f = []")
    case True
    with Some show ?thesis by (simp add: open_pair_def)
  next
    case False
    with Some assms show ?thesis by (simp add: open_pair_def)
  qed
qed

lemma marker_pair_Suc: "marker_pair (l # ls) (Suc j) = marker_pair ls j"
  by (simp add: marker_pair_def)

lemma marker_pair_skip:
  assumes "j < length (dropWhile P ls)"
  shows "marker_pair (l # ls) (j + Suc (length (takeWhile P ls))) = marker_pair (dropWhile P ls) j"
proof -
  have ls: "ls = takeWhile P ls @ dropWhile P ls" by simp
  have n: "ls ! (j + length (takeWhile P ls)) = dropWhile P ls ! j"
    by (subst ls) (simp only: nth_append, simp)
  have d: "drop (j + Suc (length (takeWhile P ls))) ls = drop (Suc j) (dropWhile P ls)"
    by (subst ls) (simp only: drop_append, simp)
  show ?thesis
    unfolding marker_pair_def using n d by simp
qed

lemma swallowed_iff:
  "swallowed lines j \<longleftrightarrow>
     (\<exists>i. i < j \<and> find_file_path (lines ! i) \<noteq> None
        \<and> (\<forall>k. i < k \<and> k \<le> j \<longrightarrow> skippable (lines ! k)))"
proof -
  have inner: "(\<forall>k \<in> {Suc i..<Suc j}. skippable (lines ! k))
      \<longleftrightarrow> (\<forall>k. i < k \<and> k \<le> j \<longrightarrow> skippable (lines ! k))" for i
    unfolding Ball_def atLeastLessThan_iff Suc_le_eq less_Suc_eq_le ..
  show ?thesis
    unfolding swallowed_def set_upt inner by (simp add: Bex_def)
qed

lemma swallowed_other:
  assumes "find_file_path l = None"
  shows "swallowed (l # ls) (Suc j) \<longleftrightarrow> swallowed ls j"
proof
  assume "swallowed (l # ls) (Suc j)"
  then obtain i where i: "i < Suc j" "find_file_path ((l # ls) ! i) \<noteq> None"
    and sk: "\<forall>k. i < k \<and> k \<le> Suc j \<longrightarrow> skippable ((l # ls) ! k)"
    unfolding swallowed_iff by blast
  from i(2) assms obtain i' where i': "i = Suc i'" by (cases i) auto
  have "\<forall>k. i' < k \<and> k \<le> j \<longrightarrow> skippable (ls ! k)"
  proof (intro allI impI)
    fix k assume "i' < k \<and> k \<le> j"
    then have "i < Suc k \<and> Suc k \<le> Suc j" unfolding i' by simp
    with sk have "skippable ((l # ls) ! Suc k)" by blast
    then show "skippable (ls ! k)" by simp
  qed
  with i show "swallowed ls j" unfolding swallowed_iff i' by auto
next
  assume "swallowed ls j"
  then obtain i where i: "i < j" "find_file_path (ls ! i) \<noteq> None"
    and sk: "\<forall>k. i < k \<and> k \<le> j \<longrightarrow> skippable (ls ! k)"
    unfolding swallowed_iff by blast
  have "\<forall>k. Suc i < k \<and> k \<le> Suc j \<longrightarrow> skippable ((l # ls) ! k)"
  proof (intro allI impI)
    fix k assume k: "Suc i < k \<and> k \<le> Suc j"
    then obtain k' where k': "k = Suc k'" by (cases k) auto
    with k sk have "skippable (ls ! k')" by simp
    then show "skippable ((l # ls) ! k)" unfolding k' by simp
  qed
  moreover have "Suc i < Suc j" using i(1) by simp
  moreover have "find_file_path ((l # ls) ! Suc i) \<noteq> None" using i(2) by simp
  ultimately show "swallowed (l # ls) (Suc j)" unfolding swallowed_iff by blast
qed

lemma emitting_other:
  assumes "find_file_path l = None"
  shows "emitting (l # ls) (Suc j) \<longleftrightarrow> emitting ls j" and "\<not> emitting (l # ls) 0"
  using assms swallowed_other [OF assms] by (simp_all add: emitting_def)

lemma emitting_first:
  assumes "find_file_path l \<noteq> None"
  shows "emitting (l # ls) 0 \<longleftrightarrow> dropWhile skippable ls \<noteq> []"
  using assms by (simp add: emitting_def swallowed_def)

lemma emitting_skipped:
  assumes m: "find_file_path l \<noteq> None"
    and i: "0 < i" "i < Suc (length (takeWhile skippable ls))"
  shows "\<not> emitting (l # ls) i"
proof (cases "find_file_path ((l # ls) ! i) = None")
  case True
  then show ?thesis unfolding emitting_def by blast
next
  case False
  have sk: "\<forall>k. 0 < k \<and> k \<le> i \<longrightarrow> skippable ((l # ls) ! k)"
  proof (intro allI impI)
    fix k assume k: "0 < k \<and> k \<le> i"
    then obtain k' where k': "k = Suc k'" by (cases k) auto
    with k i have lt: "k' < length (takeWhile skippable ls)" by simp
    then have "takeWhile skippable ls ! k' \<in> set (takeWhile skippable ls)" by simp
    then have "skippable (takeWhile skippable ls ! k')" by (rule set_takeWhileD [THEN conjunct2])
    moreover have "takeWhile skippable ls ! k' = ls ! k'" using lt by (rule takeWhile_nth)
    ultimately show "skippable ((l # ls) ! k)" unfolding k' by simp
  qed
  from m have "find_file_path ((l # ls) ! 0) \<noteq> None" by simp
  with i(1) sk have "swallowed (l # ls) i" unfolding swallowed_iff by blast
  then show ?thesis unfolding emitting_def by blast
qed

lemma nth_after_skip:
  "(l # ls) ! (j + Suc (length (takeWhile P ls))) = dropWhile P ls ! j"
proof -
  have "ls = takeWhile P ls @ dropWhile P ls" by simp
  then have "ls ! (length (takeWhile P ls) + j) = dropWhile P ls ! j"
    by (metis nth_append_length_plus)
  then show ?thesis by (simp add: add.commute)
qed

lemma drop_after_skip:
  "drop (Suc (j + Suc (length (takeWhile P ls)))) (l # ls) = drop (Suc j) (dropWhile P ls)"
proof -
  have ls: "ls = takeWhile P ls @ dropWhile P ls" by simp
  have "drop (Suc j + length (takeWhile P ls)) ls = drop (Suc j) (dropWhile P ls)"
    by (subst ls) (simp only: drop_append, simp)
  then show ?thesis by (simp add: add.commute)
qed

lemma swallowed_after_skip:
  assumes j: "j < length (dropWhile skippable ls)"
  shows "swallowed (l # ls) (j + Suc (length (takeWhile skippable ls)))
     \<longleftrightarrow> swallowed (dropWhile skippable ls) j"
proof -
  define k where "k = Suc (length (takeWhile skippable ls))"
  define ls' where "ls' = dropWhile skippable ls"
  have nth: "(l # ls) ! (m + k) = ls' ! m" for m
    unfolding k_def ls'_def by (rule nth_after_skip)
  from j have ne: "ls' \<noteq> []" unfolding ls'_def by (metis list.size(3) not_less_zero)
  then have "\<not> skippable (hd ls')" unfolding ls'_def by (rule hd_dropWhile)
  with ne have stop: "\<not> skippable (ls' ! 0)" by (simp add: hd_conv_nth)
  have "swallowed (l # ls) (j + k) \<longleftrightarrow> swallowed ls' j"
  proof
    assume "swallowed (l # ls) (j + k)"
    then obtain i where i: "i < j + k" "find_file_path ((l # ls) ! i) \<noteq> None"
      and sk: "\<forall>n. i < n \<and> n \<le> j + k \<longrightarrow> skippable ((l # ls) ! n)"
      unfolding swallowed_iff by blast
    have "k \<le> i"
    proof (rule ccontr)
      assume "\<not> k \<le> i"
      then have "i < k \<and> k \<le> j + k" by simp
      with sk have "skippable ((l # ls) ! k)" by blast
      moreover have "(l # ls) ! k = ls' ! 0" using nth [of 0] by simp
      ultimately show False using stop by simp
    qed
    then obtain i' where i': "i = i' + k" by (metis le_add_diff_inverse2)
    have "\<forall>n. i' < n \<and> n \<le> j \<longrightarrow> skippable (ls' ! n)"
    proof (intro allI impI)
      fix n assume "i' < n \<and> n \<le> j"
      then have "i < n + k \<and> n + k \<le> j + k" unfolding i' by simp
      with sk have "skippable ((l # ls) ! (n + k))" by blast
      then show "skippable (ls' ! n)" unfolding nth .
    qed
    moreover from i(1) have "i' < j" unfolding i' by simp
    moreover from i(2) have "find_file_path (ls' ! i') \<noteq> None" unfolding i' nth .
    ultimately show "swallowed ls' j" unfolding swallowed_iff by blast
  next
    assume "swallowed ls' j"
    then obtain i where i: "i < j" "find_file_path (ls' ! i) \<noteq> None"
      and sk: "\<forall>n. i < n \<and> n \<le> j \<longrightarrow> skippable (ls' ! n)"
      unfolding swallowed_iff by blast
    have "\<forall>n. i + k < n \<and> n \<le> j + k \<longrightarrow> skippable ((l # ls) ! n)"
    proof (intro allI impI)
      fix n assume n: "i + k < n \<and> n \<le> j + k"
      then have "k \<le> n" by simp
      then obtain n' where n': "n = n' + k" by (metis le_add_diff_inverse2)
      with n sk have "skippable (ls' ! n')" by simp
      then show "skippable ((l # ls) ! n)" unfolding n' nth .
    qed
    moreover from i(1) have "i + k < j + k" by simp
    moreover from i(2) have "find_file_path ((l # ls) ! (i + k)) \<noteq> None" unfolding nth .
    ultimately show "swallowed (l # ls) (j + k)" unfolding swallowed_iff by blast
  qed
  then show ?thesis unfolding k_def ls'_def .
qed

lemma emitting_after_skip:
  assumes "j < length (dropWhile skippable ls)"
  shows "emitting (l # ls) (j + Suc (length (takeWhile skippable ls)))
     \<longleftrightarrow> emitting (dropWhile skippable ls) j"
  unfolding emitting_def swallowed_after_skip [OF assms] nth_after_skip drop_after_skip ..

lemma upt_shift: "[0..<Suc n] = 0 # map Suc [0..<n]"
  by (simp only: upt_conv_Cons [OF zero_less_Suc] map_Suc_upt)

lemma upt_skip:
  "[0..<Suc (a + b)] = 0 # [Suc 0..<Suc a] @ map (\<lambda>j. j + Suc a) [0..<b]"
proof -
  have "[0..<Suc (a + b)] = 0 # [Suc 0..<Suc (a + b)]"
    by (simp only: upt_conv_Cons [OF zero_less_Suc])
  also have "[Suc 0..<Suc (a + b)] = [Suc 0..<Suc a] @ [Suc a..<Suc a + b]"
    using upt_add_eq_append [of "Suc 0" "Suc a" b] by simp
  also have "[Suc a..<Suc a + b] = map (\<lambda>j. j + Suc a) [0..<b]"
    using map_add_upt [of "Suc a" b] by (simp add: add.commute)
  finally show ?thesis .
qed

lemma open_pair_start:
  assumes "find_file_path l = Some p"
  shows "open_pair (Some p) [] (dropWhile skippable ls)
     = (if dropWhile skippable ls \<noteq> [] then [marker_pair (l # ls) 0] else [])"
proof (cases "dropWhile skippable ls")
  case Nil
  show ?thesis unfolding Nil by (simp add: open_pair_def)
next
  case (Cons x xs)
  from find_file_path_nonempty [OF assms] have p: "p \<noteq> []" .
  have "(\<exists>y \<in> set (x # xs). find_file_path y \<noteq> None)
      \<or> takeWhile (\<lambda>y. find_file_path y = None) (x # xs) \<noteq> []"
    by (cases "find_file_path x") simp_all
  with p have "open_pair (Some p) [] (x # xs)
      = [saved p (takeWhile (\<lambda>y. find_file_path y = None) (x # xs))]"
    unfolding open_pair_def by simp
  moreover have "marker_pair (l # ls) 0 = saved p (takeWhile (\<lambda>y. find_file_path y = None) (x # xs))"
    unfolding marker_pair_def saved_def using assms Cons by simp
  ultimately show ?thesis unfolding Cons by simp
qed

lemma scan_emitting:
  "scan_lines ls cf cc fd
     = fd @ open_pair cf cc ls @ map (marker_pair ls) (filter (emitting ls) [0..<length ls])"
proof (induction ls cf cc fd rule: scan_lines.induct)
  case (1 cf cc fd)
  show ?case using open_pair_Nil [of cf cc fd] by simp
next
  case (2 l ls cf cc fd)
  show ?case
  proof (cases "find_file_path l")
    case None
    then have nt: "\<not> truthy (find_file_path l)" by simp
    have f: "filter (emitting (l # ls)) [0..<length (l # ls)]
        = map Suc (filter (emitting ls) [0..<length ls])"
    proof -
      have "filter (emitting (l # ls)) (map Suc [0..<length ls])
          = map Suc (filter (emitting ls) [0..<length ls])"
        unfolding filter_map comp_def emitting_other(1) [OF None] ..
      then show ?thesis
        unfolding length_Cons upt_shift using emitting_other(2) [OF None, of ls] by simp
    qed
    have m: "map (marker_pair (l # ls)) (map Suc js) = map (marker_pair ls) js" for js
      by (simp add: marker_pair_Suc)
    have "scan_lines (l # ls) cf cc fd = scan_lines ls cf (if truthy cf then cc @ [l] else cc) fd"
      using nt by simp
    also have "\<dots> = fd @ open_pair cf cc (l # ls)
        @ map (marker_pair ls) (filter (emitting ls) [0..<length ls])"
      unfolding "2.IH"(2) [OF nt] open_pair_other [OF None] ..
    finally show ?thesis unfolding f m .
  next
    case (Some p)
    then have t: "truthy (find_file_path l)" unfolding truthy_find by simp
    from Some have mk: "find_file_path l \<noteq> None" by simp
    define ls' where "ls' = dropWhile skippable ls"
    define a where "a = length (takeWhile skippable ls)"
    define fd' where "fd' = fd @ open_pair cf cc (l # ls)"
    define js where "js = filter (emitting ls') [0..<length ls']"
    have len: "length ls = a + length ls'"
      unfolding ls'_def a_def by (metis length_append takeWhile_dropWhile_id)
    have step: "scan_lines (l # ls) cf cc fd = scan_lines ls' (Some p) [] fd'"
      using t Some unfolding ls'_def fd'_def open_pair_marker [OF mk, symmetric] by simp
    have ih: "scan_lines ls' (Some p) [] fd'
        = fd' @ open_pair (Some p) [] ls' @ map (marker_pair ls') js"
      using "2.IH"(1) [OF t] Some
      unfolding ls'_def fd'_def js_def open_pair_marker [OF mk, symmetric] by simp
    have skipped: "filter (emitting (l # ls)) [Suc 0..<Suc a] = []"
    proof -
      have "\<not> emitting (l # ls) i" if "i \<in> set [Suc 0..<Suc a]" for i
      proof -
        from that have "0 < i" and "i < Suc (length (takeWhile skippable ls))"
          unfolding a_def set_upt atLeastLessThan_iff by simp_all
        with mk show ?thesis by (rule emitting_skipped)
      qed
      then show ?thesis by (simp only: filter_empty_conv) blast
    qed
    have later: "filter (emitting (l # ls)) (map (\<lambda>j. j + Suc a) [0..<length ls']) = map (\<lambda>j. j + Suc a) js"
    proof -
      have "filter (emitting (l # ls) \<circ> (\<lambda>j. j + Suc a)) [0..<length ls']
          = filter (emitting ls') [0..<length ls']"
      proof (rule filter_cong [OF refl])
        fix j assume "j \<in> set [0..<length ls']"
        then have "j < length (dropWhile skippable ls)" unfolding ls'_def by simp
        from emitting_after_skip [OF this, of l]
        show "(emitting (l # ls) \<circ> (\<lambda>j. j + Suc a)) j = emitting ls' j"
          unfolding comp_def a_def ls'_def .
      qed
      then show ?thesis unfolding filter_map js_def by simp
    qed
    have pairs: "map (marker_pair (l # ls)) (map (\<lambda>j. j + Suc a) js) = map (marker_pair ls') js"
    proof -
      have "marker_pair (l # ls) (j + Suc a) = marker_pair ls' j" if "j \<in> set js" for j
      proof -
        from that have "j < length (dropWhile skippable ls)" unfolding js_def ls'_def by simp
        from marker_pair_skip [OF this, of l] show ?thesis unfolding a_def ls'_def .
      qed
      then show ?thesis by simp
    qed
    have all: "filter (emitting (l # ls)) [0..<length (l # ls)]
        = (if ls' \<noteq> [] then [0] else []) @ map (\<lambda>j. j + Suc a) js"
    proof -
      have "filter (emitting (l # ls)) [0..<length (l # ls)]
          = filter (emitting (l # ls)) [0] @ filter (emitting (l # ls)) [Suc 0..<Suc a]
            @ filter (emitting (l # ls)) (map (\<lambda>j. j + Suc a) [0..<length ls'])"
        unfolding length_Cons len upt_skip by simp
      also have "filter (emitting (l # ls)) [0] = (if ls' \<noteq> [] then [0] else [])"
        using emitting_first [OF mk, of ls] unfolding ls'_def by simp
      finally show ?thesis unfolding skipped later by simp
    qed
    have "scan_lines (l # ls) cf cc fd
        = fd' @ (if ls' \<noteq> [] then [marker_pair (l # ls) 0] else []) @ map (marker_pair ls') js"
      unfolding step ih using open_pair_start [OF Some, of ls] unfolding ls'_def by simp
    also have "\<dots> = fd @ open_pair cf cc (l # ls)
        @ map (marker_pair (l # ls)) (filter (emitting (l # ls)) [0..<length (l # ls)])"
      unfolding all fd'_def map_append pairs by simp
    finally show ?thesis .
  qed
qed

lemma extract_emitting:
  "extract_file_info content
     = map (marker_pair (split_nl content))
         (filter (emitting (split_nl content)) [0..<length (split_nl content)])"
  unfolding extract_scan scan_emitting [of "split_nl content" None "[]" "[]"]
  by (simp add: open_pair_def)


section \<open>Lines skipped after a marker\<close>

lemma dropWhile_append_stop:
  assumes "\<exists>x \<in> set xs. \<not> P x"
  shows "dropWhile P (xs @ ys) = dropWhile P xs @ ys"
  using assms by (induction xs) auto

lemma dropWhile_append_all:
  assumes "\<forall>x \<in> set xs. P x"
  shows "dropWhile P (xs @ ys) = dropWhile P ys"
  using assms by (induction xs) auto

lemma scan_skip_after_marker:
  assumes m: "find_file_path m \<noteq> None" and c: "skippable c"
  shows "scan_lines (pre @ m # c # post) cf cc fd = scan_lines (pre @ m # post) cf cc fd"
proof (induction "length pre" arbitrary: pre cf cc fd rule: less_induct)
  case less
  from m have t: "truthy (find_file_path m)" by (simp add: truthy_find)
  show ?case
  proof (cases pre)
    case Nil
    with t c show ?thesis by simp
  next
    case (Cons l ls)
    show ?thesis
    proof (cases "truthy (find_file_path l)")
      case False
      have "length ls < length pre" using Cons by simp
      from less [OF this] False Cons show ?thesis by simp
    next
      case True
      define fd' where "fd' = (case cf of None \<Rightarrow> fd | Some f \<Rightarrow> if f \<noteq> [] then fd @ [saved f cc] else fd)"
      have l1: "scan_lines (pre @ m # c # post) cf cc fd
          = scan_lines (dropWhile skippable (ls @ m # c # post)) (find_file_path l) [] fd'"
        using True Cons by (simp add: fd'_def)
      have l2: "scan_lines (pre @ m # post) cf cc fd
          = scan_lines (dropWhile skippable (ls @ m # post)) (find_file_path l) [] fd'"
        using True Cons by (simp add: fd'_def)
      show ?thesis
      proof (cases "\<exists>x \<in> set ls. \<not> skippable x")
        case True
        have len: "length (dropWhile skippable ls) < length pre"
          using Cons length_dropWhile_le [of skippable ls] by simp
        from less [OF len] True show ?thesis
          unfolding l1 l2 by (simp add: dropWhile_append_stop)
      next
        case False
        then have all: "\<forall>x \<in> set ls. skippable x" by blast
        have e1: "dropWhile skippable (ls @ m # c # post) = dropWhile skippable (m # c # post)"
          using all by (rule dropWhile_append_all)
        have e2: "dropWhile skippable (ls @ m # post) = dropWhile skippable (m # post)"
          using all by (rule dropWhile_append_all)
        show ?thesis
        proof (cases "skippable m")
          case True
          with c show ?thesis unfolding l1 l2 e1 e2 by simp
        next
          case False
          have "length ([] :: string list) < length pre" using Cons by simp
          from less [OF this, of "find_file_path l" "[]" fd'] False
          show ?thesis unfolding l1 l2 e1 e2 by simp
        qed
      qed
    qed
  qed
qed

lemma scan_marker_then_skippable:
  assumes "\<forall>l \<in> set pre. find_file_path l = None"
    and "find_file_path m \<noteq> None"
    and "\<forall>l \<in> set post. skippable l"
  shows "scan_lines (pre @ m # post) None [] [] = []"
proof -
  have d: "dropWhile skippable post = []" using assms(3) by simp
  from assms(2) have t: "truthy (find_file_path m)" by (simp add: truthy_find)
  have "scan_lines (pre @ m # post) None [] [] = scan_lines (m # post) None [] []"
    using assms(1) by (induction pre) simp_all
  also have "\<dots> = scan_lines (dropWhile skippable post) (find_file_path m) [] []"
    using t by simp
  also have "\<dots> = scan_lines [] (find_file_path m) [] []"
    unfolding d ..
  also have "\<dots> = []" by (cases "find_file_path m") simp_all
  finally show ?thesis .
qed


section \<open>Extracted paths need no normalisation\<close>

lemma word_char_plain:
  assumes "word_char c"
  shows "\<not> isspace c" and "c \<noteq> CHR 0x27" and "c \<noteq> CHR 0x22"
proof -
  from assms have n: "48 \<le> (of_char c :: nat)" unfolding word_char_def Let_def by arith
  from assms show "\<not> isspace c" unfolding word_char_def isspace_def Let_def by arith
  from n show "c \<noteq> CHR 0x27" by auto
  from n show "c \<noteq> CHR 0x22" by auto
qed

lemma strip_with_id:
  assumes "s \<noteq> []" and "\<not> P (hd s)" and "\<not> P (last s)"
  shows "strip_with P s = s"
proof -
  from assms(1,2) have a: "dropWhile P s = s" by (cases s) simp_all
  from assms(1,3) have b: "dropWhile P (rev s) = rev s"
    by (cases "rev s") (simp_all add: hd_rev [symmetric])
  show ?thesis unfolding strip_with_def a b by simp
qed

lemma is_path_prefix_ends:
  assumes "is_path_prefix p r"
  shows "p \<noteq> [] \<and> word_char (hd p) \<and> word_char (last p)"
proof -
  from assms obtain root body ext and rest :: string where
    p: "p = root @ ''/'' @ body @ ''.'' @ ext" and
    root: "root = ''apps'' \<or> root = ''packages''" and
    ext: "ext \<noteq> []" "\<forall>c \<in> set ext. word_char c"
    unfolding is_path_prefix_def by blast
  from root have h: "word_char (hd p)"
    unfolding p by (auto simp add: word_char_def)
  from ext have "last p = last ext" unfolding p by simp
  moreover from ext have "word_char (last ext)" by simp
  ultimately have l: "word_char (last p)" by simp
  from root have "p \<noteq> []" unfolding p by auto
  with h l show ?thesis by blast
qed

lemma normalize_path_id:
  assumes "find_file_path l = Some p"
  shows "normalize_path p = p"
proof -
  from assms have "marker_shape (strip l) p" by (simp add: find_file_path_iff)
  then obtain r where "is_path_prefix p r" unfolding marker_shape_def by blast
  then have e: "p \<noteq> []" "word_char (hd p)" "word_char (last p)"
    using is_path_prefix_ends by blast+
  have q: "strip_with (\<lambda>c. c = CHR 0x27 \<or> c = CHR 0x22) p = p"
    using e word_char_plain(2,3) by (intro strip_with_id) blast+
  have s: "strip p = p"
    unfolding strip_def using e word_char_plain(1) by (intro strip_with_id) blast+
  show ?thesis unfolding normalize_path_def q s ..
qed

lemma extracted_path_normal:
  assumes "(p, c) \<in> set (extract_file_info content)"
  shows "normalize_path p = p"
  using extract_path_marker [OF assms] normalize_path_id by blast


section \<open>The loops of main over the documents\<close>

lemma process_docs_append:
  "process_docs os dest_dir (a @ b) st = process_docs os dest_dir b (process_docs os dest_dir a st)"
  by (simp add: process_docs_def)

lemma process_docs_Cons:
  "process_docs os dest_dir (d # ds) st = process_docs os dest_dir ds (try_process os dest_dir d st)"
  by (simp add: process_docs_def)

lemma files_loop_docs:
  "fold (\<lambda>file st. try_process os dest_dir (path_join root file) st) files st
     = process_docs os dest_dir (map (path_join root) files) st"
  by (induction files arbitrary: st) (simp_all add: process_docs_def)

lemma walk_loop_docs:
  "walk_loop os dest_dir walked st = process_docs os dest_dir (doc_paths walked) st"
proof (induction walked arbitrary: st)
  case Nil
  show ?case by (simp add: walk_loop_def doc_paths_def process_docs_def)
next
  case (Cons rf walked)
  obtain root files where rf: "rf = (root, files)" by (cases rf)
  have "walk_loop os dest_dir (rf # walked) st
      = walk_loop os dest_dir walked
          (fold (\<lambda>file st. try_process os dest_dir (path_join root file) st) files st)"
    unfolding rf by (simp add: walk_loop_def)
  also have "\<dots> = process_docs os dest_dir (doc_paths walked)
      (process_docs os dest_dir (map (path_join root) files) st)"
    unfolding Cons files_loop_docs ..
  also have "\<dots> = process_docs os dest_dir (doc_paths (rf # walked)) st"
    unfolding rf by (simp add: doc_paths_def process_docs_append)
  finally show ?case .
qed




section \<open>Runs in the file system\<close>

lemma world_print: "world (print s st) = world st"
  by (simp add: print_def)

lemma apply_writes_Nil: "apply_writes [] w = w"
  by (simp add: apply_writes_def)

lemma apply_writes_Cons: "apply_writes ((q, c) # ws) w = apply_writes ws (w(q \<mapsto> c))"
  by (simp add: apply_writes_def)

lemma apply_writes_append: "apply_writes (a @ b) w = apply_writes b (apply_writes a w)"
  by (simp add: apply_writes_def)

lemma apply_writes_map: "apply_writes ws w = w ++ map_of (rev ws)"
proof (induction ws arbitrary: w)
  case Nil
  show ?case by (simp add: apply_writes_Nil)
next
  case (Cons x ws)
  obtain q c where x: "x = (q, c)" by (cases x)
  have "apply_writes (x # ws) w = w(q \<mapsto> c) ++ map_of (rev ws)"
    unfolding x apply_writes_Cons Cons ..
  also have "\<dots> = w ++ map_of (rev (x # ws))"
    unfolding x by (simp add: map_add_upd_left [symmetric] map_add_assoc [symmetric]) 
  finally show ?case .
qed

lemma apply_writes_twice: "apply_writes ws (apply_writes ws w) = apply_writes ws w"
  unfolding apply_writes_map by (rule ext) (simp add: map_add_def split: option.splits)

lemma apply_writes_other:
  assumes "q \<notin> fst ` set ws"
  shows "apply_writes ws w q = w q"
proof -
  from assms have "map_of (rev ws) q = None"
    by (simp add: map_of_eq_None_iff)
  then show ?thesis unfolding apply_writes_map by (simp add: map_add_def)
qed

lemma write_files_fs:
  "world (snd (write_files (fs_ops ro) dest_dir pairs st))
     = apply_writes
         (takeWhile (\<lambda>(q, c). q \<notin> set ro)
            (map (\<lambda>(p, c). (path_join dest_dir (normalize_path p), c)) pairs))
         (world st)"
proof (induction pairs arbitrary: st)
  case Nil
  show ?case by (simp add: apply_writes_Nil)
next
  case (Cons x pairs)
  obtain p c where x: "x = (p, c)" by (cases x)
  define q where "q = path_join dest_dir (normalize_path p)"
  show ?case
  proof (cases "q \<in> set ro")
    case True
    then have "world (snd (write_files (fs_ops ro) dest_dir (x # pairs) st)) = world st"
      unfolding x by (simp add: fs_ops_def Let_def q_def)
    with True show ?thesis unfolding x by (simp add: apply_writes_Nil q_def)
  next
    case False
    define st2 where "st2 = print (''Created file: '' @ q) (st\<lparr>world := (world st)(q \<mapsto> c)\<rparr>)"
    have w2: "world st2 = (world st)(q \<mapsto> c)"
      unfolding st2_def world_print by simp
    from False have e: "write_files (fs_ops ro) dest_dir (x # pairs) st
        = write_files (fs_ops ro) dest_dir pairs st2"
      unfolding x st2_def by (simp add: fs_ops_def Let_def q_def)
    have "world (snd (write_files (fs_ops ro) dest_dir (x # pairs) st))
        = apply_writes
            (takeWhile (\<lambda>(q, c). q \<notin> set ro)
               (map (\<lambda>(p, c). (path_join dest_dir (normalize_path p), c)) pairs))
            ((world st)(q \<mapsto> c))"
      unfolding e Cons w2 ..
    with False show ?thesis unfolding x by (simp add: apply_writes_Cons q_def)
  qed
qed

lemma process_file_fs:
  "world (snd (process_file (fs_ops ro) d dest_dir st))
     = apply_writes (doc_writes ro (world st) dest_dir d) (world st)"
proof (cases "world st d")
  case None
  then show ?thesis
    by (simp add: process_file_def doc_writes_def fs_ops_def apply_writes_Nil)
next
  case (Some content)
  then have "process_file (fs_ops ro) d dest_dir st
      = write_files (fs_ops ro) dest_dir (extract_file_info content) st"
    by (simp add: process_file_def fs_ops_def)
  then show ?thesis
    unfolding write_files_fs using Some by (simp add: doc_writes_def write_files_fs)
qed

lemma try_process_fs:
  "world (try_process (fs_ops ro) dest_dir d st)
     = apply_writes (doc_writes ro (world st) dest_dir d) (world st)"
proof -
  obtain r st' where p: "process_file (fs_ops ro) d dest_dir st = (r, st')"
    by (cases "process_file (fs_ops ro) d dest_dir st")
  then have "world (try_process (fs_ops ro) dest_dir d st) = world st'"
    by (cases r) (simp_all add: try_process_def world_print)
  also have "\<dots> = world (snd (process_file (fs_ops ro) d dest_dir st))"
    unfolding p by simp
  finally show ?thesis unfolding process_file_fs .
qed

lemma doc_writes_cong:
  assumes "w d = w' d"
  shows "doc_writes ro w dest_dir d = doc_writes ro w' dest_dir d"
  using assms by (simp add: doc_writes_def)

lemma process_docs_fs:
  assumes "\<forall>d \<in> set docs. world st d = w0 d"
    and "\<forall>d \<in> set docs. d \<notin> fst ` set (planned_writes ro w0 dest_dir docs)"
  shows "world (process_docs (fs_ops ro) dest_dir docs st)
     = apply_writes (planned_writes ro w0 dest_dir docs) (world st)"
  using assms
proof (induction docs arbitrary: st)
  case Nil
  show ?case by (simp add: process_docs_def planned_writes_def apply_writes_Nil)
next
  case (Cons d ds)
  define st1 where "st1 = try_process (fs_ops ro) dest_dir d st"
  have pw: "planned_writes ro w0 dest_dir (d # ds)
      = doc_writes ro w0 dest_dir d @ planned_writes ro w0 dest_dir ds"
    by (simp add: planned_writes_def)
  have dw: "doc_writes ro (world st) dest_dir d = doc_writes ro w0 dest_dir d"
    using Cons.prems(1) by (intro doc_writes_cong) simp
  have w1: "world st1 = apply_writes (doc_writes ro w0 dest_dir d) (world st)"
    unfolding st1_def try_process_fs dw ..
  have a: "\<forall>d' \<in> set ds. world st1 d' = w0 d'"
  proof
    fix d' assume d': "d' \<in> set ds"
    with Cons.prems(2) have "d' \<notin> fst ` set (doc_writes ro w0 dest_dir d)"
      unfolding pw by auto
    then have "world st1 d' = world st d'"
      unfolding w1 by (rule apply_writes_other)
    with Cons.prems(1) d' show "world st1 d' = w0 d'" by simp
  qed
  have b: "\<forall>d' \<in> set ds. d' \<notin> fst ` set (planned_writes ro w0 dest_dir ds)"
    using Cons.prems(2) unfolding pw by auto
  have "world (process_docs (fs_ops ro) dest_dir (d # ds) st)
      = world (process_docs (fs_ops ro) dest_dir ds st1)"
    unfolding st1_def by (simp add: process_docs_Cons)
  also have "\<dots> = apply_writes (planned_writes ro w0 dest_dir ds) (world st1)"
    using a b by (rule Cons.IH)
  also have "\<dots> = apply_writes (planned_writes ro w0 dest_dir (d # ds)) (world st)"
    unfolding w1 pw apply_writes_append ..
  finally show ?case .
qed

lemma organize_docs:
  "organize ro dest_dir walked w
     = world (process_docs (fs_ops ro) dest_dir (doc_paths walked) \<lparr>world = w, stdout = []\<rparr>)"
proof -
  have "os_makedirs (fs_ops ro) dest_dir w = (None, w)" by (simp add: fs_ops_def)
  then show ?thesis
    unfolding organize_def main_def walk_loop_docs by (simp add: world_print)
qed

lemma organize_writes:
  assumes "\<forall>d \<in> set (doc_paths walked). w d = w0 d"
    and "\<forall>d \<in> set (doc_paths walked). d \<notin> fst ` set (planned_writes ro w0 dest_dir (doc_paths walked))"
  shows "organize ro dest_dir walked w
     = apply_writes (planned_writes ro w0 dest_dir (doc_paths walked)) w"
  unfolding organize_docs
  using process_docs_fs [of "doc_paths walked" "\<lparr>world = w, stdout = []\<rparr>" w0 ro dest_dir] assms
  by simp

lemma organize_twice:
  assumes "\<forall>d \<in> set (doc_paths walked).
      d \<notin> fst ` set (planned_writes ro w dest_dir (doc_paths walked))"
  shows "organize ro dest_dir walked w
       = w ++ map_of (rev (planned_writes ro w dest_dir (doc_paths walked)))"
    and "organize ro dest_dir walked (organize ro dest_dir walked w)
       = organize ro dest_dir walked w"
proof -
  let ?ws = "planned_writes ro w dest_dir (doc_paths walked)"
  have one: "organize ro dest_dir walked w = apply_writes ?ws w"
    using assms by (intro organize_writes) simp_all
  then show "organize ro dest_dir walked w = w ++ map_of (rev ?ws)"
    unfolding apply_writes_map .
  have same: "\<forall>d \<in> set (doc_paths walked). apply_writes ?ws w d = w d"
    using assms apply_writes_other by blast
  have "organize ro dest_dir walked (apply_writes ?ws w) = apply_writes ?ws (apply_writes ?ws w)"
    using same assms by (rule organize_writes)
  then show "organize ro dest_dir walked (organize ro dest_dir walked w)
       = organize ro dest_dir walked w"
    unfolding one apply_writes_twice .
qed


section \<open>Texts without a marker\<close>

text \<open>
  Claim C3. For every input text in which no line matches either marker pattern,
  \<open>extract_file_info\<close> returns the empty sequence.
\<close>

theorem extract_no_marker:
  assumes "\<forall>l \<in> set (split_nl content). find_file_path l = None"
  shows "extract_file_info content = []"
  unfolding extract_scan using assms by (rule scan_no_marker)

theorem extract_no_marker_witness:
  "map find_file_path (split_nl ''hello\<newline>  world // apps/a/b.ts\<newline>'') = [None, None, None]
   \<and> extract_file_info ''hello\<newline>  world // apps/a/b.ts\<newline>'' = []"
proof -
  have m: "map find_file_path (split_nl ''hello\<newline>  world // apps/a/b.ts\<newline>'') = [None, None, None]"
    by code_simp
  have "set (map find_file_path (split_nl ''hello\<newline>  world // apps/a/b.ts\<newline>'')) \<subseteq> {None}"
    unfolding m by simp
  then have h: "\<forall>l \<in> set (split_nl ''hello\<newline>  world // apps/a/b.ts\<newline>''). find_file_path l = None"
    by auto
  from m extract_no_marker [OF h] show ?thesis by (rule conjI)
qed


section \<open>Texts with a single marker\<close>

text \<open>
  Claim C2. For every text that has exactly one marker line, at least one line after it
  that is neither blank nor a comment, and no further marker, \<open>extract_file_info\<close>
  returns exactly one pair: the path of the marker, with the lines after the marker joined
  by newlines and stripped, the blank and comment lines that immediately follow the marker
  being left out.
\<close>

theorem extract_single_marker:
  assumes "split_nl content = pre @ m # post"
    and "find_file_path m = Some p"
    and "\<forall>l \<in> set pre \<union> set post. find_file_path l = None"
    and "\<exists>l \<in> set post. \<not> skippable l"
  shows "extract_file_info content = [(p, strip (join_nl (dropWhile skippable post)))]"
proof -
  from assms(3) have pre: "\<forall>l \<in> set pre. find_file_path l = None"
    and post: "\<forall>l \<in> set post. find_file_path l = None"
    by blast+
  show ?thesis
    unfolding extract_scan assms(1)
    by (rule scan_single_marker [OF pre assms(2) post assms(4)])
qed

theorem extract_single_marker_witness:
  "split_nl ''intro\<newline>// apps/web/a.ts\<newline>\<newline>// note\<newline> line 1\<newline>\<newline>line 2\<newline>''
     = [''intro''] @ ''// apps/web/a.ts'' # ['''', ''// note'', '' line 1'', '''', ''line 2'', '''']
   \<and> find_file_path ''// apps/web/a.ts'' = Some ''apps/web/a.ts''
   \<and> extract_file_info ''intro\<newline>// apps/web/a.ts\<newline>\<newline>// note\<newline> line 1\<newline>\<newline>line 2\<newline>''
     = [(''apps/web/a.ts'', ''line 1\<newline>\<newline>line 2'')]"
proof -
  let ?post = "['''', ''// note'', '' line 1'', '''', ''line 2'', '''']"
  have 1: "split_nl ''intro\<newline>// apps/web/a.ts\<newline>\<newline>// note\<newline> line 1\<newline>\<newline>line 2\<newline>''
     = [''intro''] @ ''// apps/web/a.ts'' # ?post"
    by code_simp
  have 2: "find_file_path ''// apps/web/a.ts'' = Some ''apps/web/a.ts''"
    by code_simp
  have 3: "\<forall>l \<in> set [''intro''] \<union> set ?post. find_file_path l = None"
    by code_simp
  have 4: "\<exists>l \<in> set ?post. \<not> skippable l"
    by code_simp
  have 5: "strip (join_nl (dropWhile skippable ?post)) = ''line 1\<newline>\<newline>line 2''"
    by code_simp
  from extract_single_marker [OF 1 2 3 4] 1 2 5 show ?thesis by simp
qed


section \<open>Adjacent markers\<close>

text \<open>
  Claim C1 says that of two adjacent markers with no content between them the first path is
  dropped and only the second survives. For two adjacent comment-form markers the code does
  the opposite: the second marker is a comment line, so the loop that follows the first
  marker skips it, and the content that follows goes to the first path. When the second
  marker is in the bare form the loop does reach it, and the first path is then saved with
  empty content instead of being dropped.
\<close>

theorem adjacent_markers_counterexample:
  "find_file_path ''// apps/a/x.ts'' = Some ''apps/a/x.ts''
   \<and> find_file_path ''// apps/b/y.ts'' = Some ''apps/b/y.ts''
   \<and> extract_file_info ''// apps/a/x.ts\<newline>// apps/b/y.ts\<newline>hello''
       = [(''apps/a/x.ts'', ''hello'')]
   \<and> extract_file_info ''apps/a/x.ts\<newline>apps/b/y.ts\<newline>hello''
       = [(''apps/a/x.ts'', []), (''apps/b/y.ts'', ''hello'')]"
  by code_simp

text \<open>
  Claim C1, amended. When a marker line is immediately followed by a blank line or by a
  comment line (a line that starts with \<open>//\<close> or \<open>#\<close> after trimming, which includes every
  comment-form marker), that following line is skipped: the result is the result for the text
  without it. So of two adjacent comment-form markers the first path stays open and the
  second is not seen. When moreover no line before the marker is a marker and only blank and
  comment lines follow it up to the end of the input, no pair is produced.
\<close>

theorem adjacent_marker_skipped:
  assumes "find_file_path m \<noteq> None" and "skippable c"
    and "split_nl content = pre @ m # c # post"
    and "split_nl content' = pre @ m # post"
  shows "extract_file_info content = extract_file_info content'
     \<and> ((\<forall>l \<in> set pre. find_file_path l = None) \<and> (\<forall>l \<in> set post. skippable l)
          \<longrightarrow> extract_file_info content = [])"
proof
  show eq: "extract_file_info content = extract_file_info content'"
    unfolding extract_scan assms(3) assms(4)
    using assms(1) assms(2) by (rule scan_skip_after_marker)
  show "(\<forall>l \<in> set pre. find_file_path l = None) \<and> (\<forall>l \<in> set post. skippable l)
          \<longrightarrow> extract_file_info content = []"
  proof
    assume h: "(\<forall>l \<in> set pre. find_file_path l = None) \<and> (\<forall>l \<in> set post. skippable l)"
    have "extract_file_info content' = []"
      unfolding extract_scan assms(4)
      using h assms(1) by (intro scan_marker_then_skippable) blast+
    with eq show "extract_file_info content = []" by simp
  qed
qed

theorem adjacent_marker_skipped_witness:
  "extract_file_info ''// apps/a/x.ts\<newline>// apps/b/y.ts\<newline>hello''
     = extract_file_info ''// apps/a/x.ts\<newline>hello''
   \<and> extract_file_info ''// apps/a/x.ts\<newline>hello'' = [(''apps/a/x.ts'', ''hello'')]
   \<and> extract_file_info ''intro\<newline>// apps/a/x.ts\<newline># apps/b/y.ts\<newline>'' = []"
proof -
  have m: "find_file_path ''// apps/a/x.ts'' \<noteq> None" by code_simp
  have c1: "skippable ''// apps/b/y.ts''" by code_simp
  have c2: "skippable ''# apps/b/y.ts''" by code_simp
  have a1: "split_nl ''// apps/a/x.ts\<newline>// apps/b/y.ts\<newline>hello''
      = [] @ ''// apps/a/x.ts'' # ''// apps/b/y.ts'' # [''hello'']" by code_simp
  have a2: "split_nl ''// apps/a/x.ts\<newline>hello'' = [] @ ''// apps/a/x.ts'' # [''hello'']"
    by code_simp
  have b1: "split_nl ''intro\<newline>// apps/a/x.ts\<newline># apps/b/y.ts\<newline>''
      = [''intro''] @ ''// apps/a/x.ts'' # ''# apps/b/y.ts'' # ['''']" by code_simp
  have b2: "split_nl ''intro\<newline>// apps/a/x.ts\<newline>'' = [''intro''] @ ''// apps/a/x.ts'' # ['''']"
    by code_simp
  have p: "\<forall>l \<in> set [''intro'']. find_file_path l = None" by code_simp
  have q: "\<forall>l \<in> set ['''']. skippable l" by code_simp
  have r: "extract_file_info ''// apps/a/x.ts\<newline>hello'' = [(''apps/a/x.ts'', ''hello'')]"
    by code_simp
  from adjacent_marker_skipped [OF m c1 a1 a2] adjacent_marker_skipped [OF m c2 b1 b2] p q r
  show ?thesis by blast
qed


section \<open>Quoted paths\<close>

text \<open>
  Claim C4 says that a document with a marker whose path is wrapped in quotes, such as a
  line with \<open>"apps/a/b.ts"\<close>, produces the output path \<open>apps/a/b.ts\<close>. No pattern
  admits a quote character, so such a line is not a marker, bare or after a comment token:
  nothing is extracted from the document and no file is written.
\<close>

theorem quoted_path_counterexample:
  "find_file_path ''\"apps/a/b.ts\"'' = None
   \<and> find_file_path ''// \"apps/a/b.ts\"'' = None
   \<and> extract_file_info ''\"apps/a/b.ts\"\<newline>hello'' = []
   \<and> extract_file_info ''// \"apps/a/b.ts\"\<newline>hello'' = []
   \<and> organize [] ''out'' [(''src'', [''doc.txt''])]
         [''src/doc.txt'' \<mapsto> ''\"apps/a/b.ts\"\<newline>hello''] ''out/apps/a/b.ts'' = None"
  by code_simp

text \<open>
  Claim C4, amended. Before the path of an extracted pair is joined with the destination
  directory, quote characters and then whitespace are removed from both its ends, which
  would turn \<open>"apps/a/b.ts"\<close> into \<open>apps/a/b.ts\<close>; but a line whose path is wrapped
  in quotes is not a marker, and every path that \<open>extract_file_info\<close> returns is left
  unchanged by this normalisation.
\<close>

theorem extracted_path_unchanged:
  "normalize_path ''\"apps/a/b.ts\"'' = ''apps/a/b.ts''
   \<and> ((p, c) \<in> set (extract_file_info content) \<longrightarrow> normalize_path p = p)"
proof
  show "normalize_path ''\"apps/a/b.ts\"'' = ''apps/a/b.ts''" by code_simp
  show "(p, c) \<in> set (extract_file_info content) \<longrightarrow> normalize_path p = p"
    using extracted_path_normal by blast
qed

theorem extracted_path_unchanged_witness:
  "(''apps/a/b.ts'', ''hello'') \<in> set (extract_file_info ''// apps/a/b.ts\<newline>hello'')
   \<and> normalize_path ''apps/a/b.ts'' = ''apps/a/b.ts''"
proof -
  have m: "(''apps/a/b.ts'', ''hello'') \<in> set (extract_file_info ''// apps/a/b.ts\<newline>hello'')"
    by code_simp
  from m extracted_path_unchanged [of "''apps/a/b.ts''" "''hello''" "''// apps/a/b.ts\<newline>hello''"]
  show ?thesis by blast
qed


section \<open>The recognition of a marker\<close>

text \<open>
  Claim C5 says that a line is a marker exactly when it has one of the two forms of the
  specification, the first being a comment token followed by whitespace and a path. The first
  pattern of the code has one space character after the token, so a line with a tab there
  has the form of the specification and is not a marker.
\<close>

theorem marker_counterexample:
  "spec_is_marker (''//'' @ [CHR 0x09] @ ''apps/a/b.ts'')
   \<and> find_file_path (''//'' @ [CHR 0x09] @ ''apps/a/b.ts'') = None"
  by code_simp

text \<open>
  Claim C5, amended. A line is recognised as a marker with path \<open>p\<close> exactly when the
  trimmed line is \<open>//\<close> or \<open>#\<close> and exactly one space character followed by a text that
  begins with \<open>p\<close>, or itself begins with \<open>p\<close>, where \<open>p\<close> is \<open>apps\<close> or
  \<open>packages\<close>, a slash, one or more characters that are word characters, slashes or
  hyphens, a dot, and one or more word characters, and the character after \<open>p\<close>, if there
  is one, is not a word character. The comment form is tried first; the two forms exclude
  each other, so the path is the same whichever matches.
\<close>

theorem marker_recognised:
  "find_file_path line = Some p \<longleftrightarrow> marker_shape (strip line) p"
  by (rule find_file_path_iff)

theorem marker_recognised_witness:
  "find_file_path ''  # packages/a-b/c.d.e rest'' = Some ''packages/a-b/c.d''
   \<and> marker_shape (strip ''  # packages/a-b/c.d.e rest'') ''packages/a-b/c.d''"
proof -
  have f: "find_file_path ''  # packages/a-b/c.d.e rest'' = Some ''packages/a-b/c.d''"
    by code_simp
  from f marker_recognised [of "''  # packages/a-b/c.d.e rest''" "''packages/a-b/c.d''"]
  show ?thesis by blast
qed


section \<open>The order of the result\<close>

text \<open>
  Claim C6. For every input text the pairs that \<open>extract_file_info\<close> returns are in
  the order of the marker lines that produced them: the result is, in the order of the line
  numbers, the pair of every marker line that produces one, each pair being the path of its
  marker and the content collected for it (\<open>marker_pair\<close>). A pair whose marker is on an
  earlier line therefore precedes a pair whose marker is on a later line, and a path that
  occurs on several such lines gives as many separate pairs, in the order of the lines.
\<close>

theorem extract_order:
  "extract_file_info content
     = map (marker_pair (split_nl content))
         (filter (emitting (split_nl content)) [0..<length (split_nl content)])"
  by (rule extract_emitting)

theorem extract_order_witness:
  "filter (emitting (split_nl ''apps/a.ts\<newline>first\<newline>// apps/b.ts\<newline># apps/c.ts\<newline>\<newline>second\<newline>apps/a.ts\<newline>third\<newline>apps/d.ts\<newline>''))
     [0..<length (split_nl ''apps/a.ts\<newline>first\<newline>// apps/b.ts\<newline># apps/c.ts\<newline>\<newline>second\<newline>apps/a.ts\<newline>third\<newline>apps/d.ts\<newline>'')] = [0, 2, 6]
   \<and> extract_file_info ''apps/a.ts\<newline>first\<newline>// apps/b.ts\<newline># apps/c.ts\<newline>\<newline>second\<newline>apps/a.ts\<newline>third\<newline>apps/d.ts\<newline>''
     = [(''apps/a.ts'', ''first''), (''apps/b.ts'', ''second''), (''apps/a.ts'', ''third'')]"
proof -
  let ?lines = "split_nl ''apps/a.ts\<newline>first\<newline>// apps/b.ts\<newline># apps/c.ts\<newline>\<newline>second\<newline>apps/a.ts\<newline>third\<newline>apps/d.ts\<newline>''"
  have f: "filter (emitting ?lines) [0..<length ?lines] = [0, 2, 6]"
    by code_simp
  have v: "map (marker_pair ?lines) [0, 2, 6]
      = [(''apps/a.ts'', ''first''), (''apps/b.ts'', ''second''), (''apps/a.ts'', ''third'')]"
    by code_simp
  from extract_order [of "''apps/a.ts\<newline>first\<newline>// apps/b.ts\<newline># apps/c.ts\<newline>\<newline>second\<newline>apps/a.ts\<newline>third\<newline>apps/d.ts\<newline>''"]
  have "extract_file_info ''apps/a.ts\<newline>first\<newline>// apps/b.ts\<newline># apps/c.ts\<newline>\<newline>second\<newline>apps/a.ts\<newline>third\<newline>apps/d.ts\<newline>'' = map (marker_pair ?lines) [0, 2, 6]"
    unfolding f .
  with f v show ?thesis by simp
qed


section \<open>Errors of single documents\<close>



section \<open>The end-to-end scenario\<close>

text \<open>
  Claim C8. The document of the four lines \<open>// apps/web/src/index.ts\<close>,
  \<open>console.log("hi");\<close>, \<open>// apps/web/src/util.ts\<close> and \<open>export const x = 1;\<close> yields
  exactly two pairs, in this order: \<open>apps/web/src/index.ts\<close> with the content
  \<open>console.log("hi");\<close> and \<open>apps/web/src/util.ts\<close> with the content
  \<open>export const x = 1;\<close>.
\<close>

theorem extract_end_to_end:
  "extract_file_info
     ''// apps/web/src/index.ts\<newline>console.log(\"hi\");\<newline>// apps/web/src/util.ts\<newline>export const x = 1;''
   = [(''apps/web/src/index.ts'', ''console.log(\"hi\");''),
      (''apps/web/src/util.ts'', ''export const x = 1;'')]"
  by code_simp


section \<open>Running the program twice\<close>

text \<open>
  Claim C9. In the file system of this theory, take a run over documents none of which is
  an output path of the run, so that the second run finds the source directory as the first
  run found it. The file system after the run is the initial one overridden by the writes
  that the documents determine, the last write to a path winning; and a second run over the
  same documents into the same destination leaves exactly the file system that the first run
  left, so every output path has the same content after two runs as after one.
\<close>

theorem organize_idempotent:
  assumes "\<forall>d \<in> set (doc_paths walked).
      d \<notin> fst ` set (planned_writes ro w dest_dir (doc_paths walked))"
  shows "organize ro dest_dir walked w
       = w ++ map_of (rev (planned_writes ro w dest_dir (doc_paths walked)))
     \<and> organize ro dest_dir walked (organize ro dest_dir walked w)
       = organize ro dest_dir walked w"
  using organize_twice [OF assms] by (rule conjI)

theorem organize_idempotent_witness:
  "map (organize [''out/apps/z.ts''] ''out'' [(''src'', [''a.txt'', ''b.txt''])]
      [''src/a.txt'' \<mapsto> ''// apps/x.ts\<newline>one'',
      ''src/b.txt'' \<mapsto> ''// apps/x.ts\<newline>two\<newline>// apps/y.ts\<newline>three\<newline>// apps/z.ts\<newline>four''])
     [''out/apps/x.ts'', ''out/apps/y.ts'', ''out/apps/z.ts'', ''src/a.txt'']
     = [Some ''two'', Some ''three'', None, Some ''// apps/x.ts\<newline>one'']
   \<and> map (organize [''out/apps/z.ts''] ''out'' [(''src'', [''a.txt'', ''b.txt''])]
      (organize [''out/apps/z.ts''] ''out'' [(''src'', [''a.txt'', ''b.txt''])]
         [''src/a.txt'' \<mapsto> ''// apps/x.ts\<newline>one'',
      ''src/b.txt'' \<mapsto> ''// apps/x.ts\<newline>two\<newline>// apps/y.ts\<newline>three\<newline>// apps/z.ts\<newline>four'']))
     [''out/apps/x.ts'', ''out/apps/y.ts'', ''out/apps/z.ts'', ''src/a.txt'']
     = [Some ''two'', Some ''three'', None, Some ''// apps/x.ts\<newline>one'']"
proof -
  let ?w = "[''src/a.txt'' \<mapsto> ''// apps/x.ts\<newline>one'',
      ''src/b.txt'' \<mapsto> ''// apps/x.ts\<newline>two\<newline>// apps/y.ts\<newline>three\<newline>// apps/z.ts\<newline>four'']"
  have h: "\<forall>d \<in> set (doc_paths [(''src'', [''a.txt'', ''b.txt''])]).
      d \<notin> fst ` set (planned_writes [''out/apps/z.ts''] ?w ''out'' (doc_paths [(''src'', [''a.txt'', ''b.txt''])]))"
    by code_simp
  have one: "map (organize [''out/apps/z.ts''] ''out'' [(''src'', [''a.txt'', ''b.txt''])] ?w) [''out/apps/x.ts'', ''out/apps/y.ts'', ''out/apps/z.ts'', ''src/a.txt'']
     = [Some ''two'', Some ''three'', None, Some ''// apps/x.ts\<newline>one'']"
    by code_simp
  from organize_idempotent [OF h]
  have two: "organize [''out/apps/z.ts''] ''out'' [(''src'', [''a.txt'', ''b.txt''])] (organize [''out/apps/z.ts''] ''out'' [(''src'', [''a.txt'', ''b.txt''])] ?w)
      = organize [''out/apps/z.ts''] ''out'' [(''src'', [''a.txt'', ''b.txt''])] ?w"
    by (rule conjunct2)
  from one show ?thesis unfolding two by (rule conjI [OF _ one])
qed


section \<open>Termination\<close>

text \<open>
  Claim C10. For every input text \<open>extract_file_info\<close> terminates: every iteration of
  the main loop strictly increases the line index, on the marker branch (with its inner loop
  over blank and comment lines) and on the other branch, so the inner loop and the main
  loop, run as while loops from any state, both return, with the values of
  \<open>skip_loop\<close> and \<open>main_loop\<close>.
\<close>

theorem extract_terminates:
  "idx st < idx (loop_step lines st)
   \<and> while_option (\<lambda>i. i < length lines \<and> skippable (lines ! i)) (\<lambda>i. i + 1) i
       = Some (skip_loop lines i)
   \<and> while_option (\<lambda>st. idx st < length lines) (loop_step lines) st = Some (main_loop lines st)"
  using idx_loop_step skip_loop_while main_loop_while by blast

end
